theory Spec2Isabelle
  imports Main "HOL-Library.AList" "HOL-Library.Char_ord" "HOL-Library.List_Lexorder"
begin

section \<open>Python values and the object store\<close>

text \<open>
  The program (\<^verbatim>\<open>lib/python/qmk/cli/xap/docs.py\<close>) works on what \<^verbatim>\<open>hjson.load\<close>
  returns: strings, integers, booleans, \<^verbatim>\<open>None\<close>, lists and \<^verbatim>\<open>OrderedDict\<close>
  objects keyed by strings.  Lists and dictionaries are objects with identity: the
  code stores references to them (\<^verbatim>\<open>target[k] = v\<close>) and mutates them in place
  (\<^verbatim>\<open>del target[k]["!reset!"]\<close>, \<^verbatim>\<open>flags[str(n)] = {...}\<close>), so the model keeps
  them in an explicit store.  An address is an index into the store; allocation
  appends.  Floating point numbers are not modelled.

  \<^verbatim>\<open>_update_response_flags\<close> creates plain \<^verbatim>\<open>dict\<close> objects, for which
  \<^verbatim>\<open>isinstance(v, OrderedDict)\<close> is false, so a dictionary object records its kind.
\<close>

datatype val = PNone | PBool bool | PInt int | PStr string | Ref nat

datatype dict_kind = Ordered | Plain

datatype obj =
    Dict dict_kind "(string \<times> val) list"
  | PyList "val list"

type_synonym heap = "obj list"

datatype error = KeyError | IndexError | TypeError | AttributeError | RecursionError

definition obj_at :: "heap \<Rightarrow> val \<Rightarrow> obj option" where
  "obj_at h v = (case v of Ref a \<Rightarrow> (if a < length h then Some (h ! a) else None) | _ \<Rightarrow> None)"

definition alloc :: "heap \<Rightarrow> obj \<Rightarrow> nat \<times> heap" where
  "alloc h ob = (length h, h @ [ob])"

text \<open>\<^verbatim>\<open>isinstance(v, OrderedDict)\<close> and \<^verbatim>\<open>isinstance(v, list)\<close>.\<close>

definition isinstance_OrderedDict :: "heap \<Rightarrow> val \<Rightarrow> bool" where
  "isinstance_OrderedDict h v = (case obj_at h v of Some (Dict Ordered kvs) \<Rightarrow> True | _ \<Rightarrow> False)"

definition isinstance_list :: "heap \<Rightarrow> val \<Rightarrow> bool" where
  "isinstance_list h v = (case obj_at h v of Some (PyList xs) \<Rightarrow> True | _ \<Rightarrow> False)"

text \<open>The items of a dictionary of either kind, in insertion order.\<close>

definition dict_items :: "heap \<Rightarrow> val \<Rightarrow> (string \<times> val) list option" where
  "dict_items h v =
     (case obj_at h v of Some (Dict kd kvs) \<Rightarrow> Some kvs | _ \<Rightarrow> None)"

text \<open>\<^verbatim>\<open>d.items()\<close>: only dictionaries have the method.\<close>

definition py_items :: "heap \<Rightarrow> val \<Rightarrow> error + (string \<times> val) list" where
  "py_items h d = (case dict_items h d of Some kvs \<Rightarrow> Inr kvs | None \<Rightarrow> Inl AttributeError)"

text \<open>\<^verbatim>\<open>k in d\<close> and \<^verbatim>\<open>d[k]\<close> for a dictionary \<open>d\<close>.\<close>

definition py_in :: "heap \<Rightarrow> string \<Rightarrow> val \<Rightarrow> bool" where
  "py_in h k d = (case dict_items h d of Some kvs \<Rightarrow> map_of kvs k \<noteq> None | None \<Rightarrow> False)"

definition getitem :: "heap \<Rightarrow> val \<Rightarrow> string \<Rightarrow> error + val" where
  "getitem h d k =
     (case dict_items h d of
        Some kvs \<Rightarrow> (case map_of kvs k of Some v \<Rightarrow> Inr v | None \<Rightarrow> Inl KeyError)
      | None \<Rightarrow> Inl TypeError)"

text \<open>
  In-place updates of the dictionary at an address.  \<^verbatim>\<open>d[k] = v\<close> keeps the position
  of a key that is present and appends a new key at the end; \<^verbatim>\<open>del d[k]\<close> removes the
  key.
\<close>

definition map_items :: "((string \<times> val) list \<Rightarrow> (string \<times> val) list) \<Rightarrow> obj \<Rightarrow> obj" where
  "map_items f ob =
     (case ob of Dict kd kvs \<Rightarrow> Dict kd (f kvs) | PyList xs \<Rightarrow> PyList xs)"

definition setitem :: "heap \<Rightarrow> nat \<Rightarrow> string \<Rightarrow> val \<Rightarrow> heap" where
  "setitem h a k v = h[a := map_items (AList.update k v) (h ! a)]"

definition delitem :: "heap \<Rightarrow> val \<Rightarrow> string \<Rightarrow> heap" where
  "delitem h d k = (case d of Ref a \<Rightarrow> h[a := map_items (AList.delete k) (h ! a)] | _ \<Rightarrow> h)"

section \<open>The layered merger\<close>

definition reset_token :: string where
  "reset_token = ''!reset!''"

text \<open>
  \<^verbatim>\<open>add_entry(target, k, v)\<close>, the closure inside \<^verbatim>\<open>_merge_ordered_dicts\<close>.  Its
  recursive call of \<^verbatim>\<open>_merge_ordered_dicts\<close> is the parameter \<open>rec\<close>.  \<open>target\<close> is the
  address of the dictionary \<^verbatim>\<open>result\<close>.
  \<^item> \<^verbatim>\<open>v[0]\<close> raises \<^verbatim>\<open>IndexError\<close> on an empty list;
  \<^item> \<^verbatim>\<open>target[k] + v\<close> raises \<^verbatim>\<open>TypeError\<close> unless \<^verbatim>\<open>target[k]\<close> is a list;
  \<^item> \<^verbatim>\<open>"!reset!" in target[k]\<close> is evaluated only after \<^verbatim>\<open>target[k]\<close> has been set to
    \<open>v\<close> (an \<^verbatim>\<open>OrderedDict\<close>) or to the result of the recursive call, so it is a
    key test on a dictionary;
  \<^item> \<^verbatim>\<open>v[1:]\<close> and \<^verbatim>\<open>target[k] + v\<close> build new lists; \<^verbatim>\<open>target[k] = v\<close> stores the
    reference \<open>v\<close> itself.
\<close>

definition add_entry ::
  "(heap \<Rightarrow> val list \<Rightarrow> error + nat \<times> heap) \<Rightarrow> heap \<Rightarrow> nat \<Rightarrow> string \<Rightarrow> val \<Rightarrow> error + heap" where
  "add_entry rec h target k v =
     (if py_in h k (Ref target) \<and> isinstance_OrderedDict h v then
        (case (if py_in h reset_token v then Inr (setitem h target k v)
               else (case getitem h (Ref target) k of
                       Inl e \<Rightarrow> Inl e
                     | Inr old \<Rightarrow>
                         (case rec h [old, v] of
                            Inl e \<Rightarrow> Inl e
                          | Inr (r, h1) \<Rightarrow> Inr (setitem h1 target k (Ref r))))) of
           Inl e \<Rightarrow> Inl e
         | Inr h2 \<Rightarrow>
             (case getitem h2 (Ref target) k of
                Inl e \<Rightarrow> Inl e
              | Inr tk \<Rightarrow> if py_in h2 reset_token tk then Inr (delitem h2 tk reset_token) else Inr h2))
      else if py_in h k (Ref target) \<and> isinstance_list h v then
        (case obj_at h v of
           Some (PyList []) \<Rightarrow> Inl IndexError
         | Some (PyList (x # xs)) \<Rightarrow>
             if x = PStr reset_token then
               (case alloc h (PyList xs) of (a, h1) \<Rightarrow> Inr (setitem h1 target k (Ref a)))
             else
               (case getitem h (Ref target) k of
                  Inl e \<Rightarrow> Inl e
                | Inr old \<Rightarrow>
                    (case obj_at h old of
                       Some (PyList ys) \<Rightarrow>
                         (case alloc h (PyList (ys @ x # xs)) of
                            (a, h1) \<Rightarrow> Inr (setitem h1 target k (Ref a)))
                     | _ \<Rightarrow> Inl TypeError))
         | _ \<Rightarrow> Inl TypeError)
      else Inr (setitem h target k v))"

text \<open>
  The two loops of \<^verbatim>\<open>_merge_ordered_dicts\<close>:
  \<^verbatim>\<open>for d in dicts: for (k,v) in d.items(): add_entry(result, k, v)\<close>.
  The items of \<open>d\<close> are read when the inner loop starts.  (\<open>d\<close> itself is never
  changed while it is iterated unless it contains itself, which no parsed tree does.)
\<close>

fun add_items ::
  "(heap \<Rightarrow> val list \<Rightarrow> error + nat \<times> heap) \<Rightarrow> heap \<Rightarrow> nat \<Rightarrow> (string \<times> val) list \<Rightarrow> error + heap" where
  "add_items rec h target [] = Inr h"
| "add_items rec h target ((k, v) # kvs) =
     (case add_entry rec h target k v of
        Inl e \<Rightarrow> Inl e
      | Inr h' \<Rightarrow> add_items rec h' target kvs)"

fun add_dicts ::
  "(heap \<Rightarrow> val list \<Rightarrow> error + nat \<times> heap) \<Rightarrow> heap \<Rightarrow> nat \<Rightarrow> val list \<Rightarrow> error + heap" where
  "add_dicts rec h target [] = Inr h"
| "add_dicts rec h target (d # ds) =
     (case py_items h d of
        Inl e \<Rightarrow> Inl e
      | Inr kvs \<Rightarrow>
          (case add_items rec h target kvs of
             Inl e \<Rightarrow> Inl e
           | Inr h' \<Rightarrow> add_dicts rec h' target ds))"

definition merge_body ::
  "(heap \<Rightarrow> val list \<Rightarrow> error + nat \<times> heap) \<Rightarrow> heap \<Rightarrow> val list \<Rightarrow> error + nat \<times> heap" where
  "merge_body rec h dicts =
     (case alloc h (Dict Ordered []) of
        (result, h0) \<Rightarrow>
          (case add_dicts rec h0 result dicts of
             Inl e \<Rightarrow> Inl e
           | Inr h' \<Rightarrow> Inr (result, h')))"

text \<open>
  \<^verbatim>\<open>_merge_ordered_dicts(dicts)\<close>.  The first argument bounds the nesting of the
  recursive calls: the interpreter raises \<^verbatim>\<open>RecursionError\<close> beyond its recursion
  limit.  The result is the address of the new dictionary and the store after the call.
\<close>

fun merge_ordered_dicts :: "nat \<Rightarrow> heap \<Rightarrow> val list \<Rightarrow> error + nat \<times> heap" where
  "merge_ordered_dicts 0 h dicts = Inl RecursionError"
| "merge_ordered_dicts (Suc n) h dicts = merge_body (merge_ordered_dicts n) h dicts"

section \<open>Parsed trees\<close>

text \<open>
  A definition tree as a value: what a parsed document, or the contents of the store
  below a reference, looks like when identity is ignored.
\<close>

datatype tree =
    TNone | TBool bool | TInt int | TStr string
  | TList "tree list"
  | TDict dict_kind "(string \<times> tree) list"

text \<open>
  \<open>store\<close> builds the objects of a tree in the store, as a parser does: every list and
  every dictionary of the tree becomes a new object of its own, children before their
  parent.  The result is the value standing for the tree and the extended store.
\<close>

fun store :: "tree \<Rightarrow> heap \<Rightarrow> val \<times> heap"
  and store_list :: "tree list \<Rightarrow> heap \<Rightarrow> val list \<times> heap"
  and store_items :: "(string \<times> tree) list \<Rightarrow> heap \<Rightarrow> (string \<times> val) list \<times> heap" where
  "store TNone h = (PNone, h)"
| "store (TBool b) h = (PBool b, h)"
| "store (TInt i) h = (PInt i, h)"
| "store (TStr s) h = (PStr s, h)"
| "store (TList ts) h = (case store_list ts h of (vs, h1) \<Rightarrow> (Ref (length h1), h1 @ [PyList vs]))"
| "store (TDict kd kts) h =
     (case store_items kts h of (kvs, h1) \<Rightarrow> (Ref (length h1), h1 @ [Dict kd kvs]))"
| "store_list [] h = ([], h)"
| "store_list (t # ts) h =
     (case store t h of (v, h1) \<Rightarrow> (case store_list ts h1 of (vs, h2) \<Rightarrow> (v # vs, h2)))"
| "store_items [] h = ([], h)"
| "store_items ((k, t) # kts) h =
     (case store t h of (v, h1) \<Rightarrow> (case store_items kts h1 of (kvs, h2) \<Rightarrow> ((k, v) # kvs, h2)))"

text \<open>
  \<open>tree_of n h v\<close> reads the tree below the value \<open>v\<close> back from the store, following
  references to depth \<open>n\<close>; \<open>None\<close> when the structure is deeper than \<open>n\<close> (or cyclic) or
  a reference points outside the store.
\<close>

fun tree_of :: "nat \<Rightarrow> heap \<Rightarrow> val \<Rightarrow> tree option" where
  "tree_of n h PNone = Some TNone"
| "tree_of n h (PBool b) = Some (TBool b)"
| "tree_of n h (PInt i) = Some (TInt i)"
| "tree_of n h (PStr s) = Some (TStr s)"
| "tree_of 0 h (Ref a) = None"
| "tree_of (Suc n) h (Ref a) =
     (case obj_at h (Ref a) of
        None \<Rightarrow> None
      | Some (PyList vs) \<Rightarrow> map_option TList (those (map (tree_of n h) vs))
      | Some (Dict kd kvs) \<Rightarrow>
          map_option (TDict kd)
            (those (map (\<lambda>(k, v). map_option (Pair k) (tree_of n h v)) kvs)))"

section \<open>Predicates used in the statements\<close>




section \<open>The merger on trees\<close>

text \<open>
  The same function read on values: \<^verbatim>\<open>add_entry\<close> and \<^verbatim>\<open>_merge_ordered_dicts\<close> with
  the dictionaries passed and returned as association lists, \<^verbatim>\<open>target[k] = v\<close> as an
  update of the list and \<^verbatim>\<open>del target[k]["!reset!"]\<close> as the removal of the key from the
  entry just stored.  Identity is invisible here; the section on refinement proves
  that the store-level function above, run on separately parsed layers, computes exactly
  this.
\<close>

definition tree_items :: "tree \<Rightarrow> error + (string \<times> tree) list" where
  "tree_items t = (case t of TDict kd kts \<Rightarrow> Inr kts | _ \<Rightarrow> Inl AttributeError)"

definition tree_strip :: "tree \<Rightarrow> tree" where
  "tree_strip t = (case t of TDict kd kts \<Rightarrow> TDict kd (AList.delete reset_token kts) | _ \<Rightarrow> t)"

definition tree_add_entry ::
  "(tree list \<Rightarrow> error + tree) \<Rightarrow> (string \<times> tree) list \<Rightarrow> string \<Rightarrow> tree \<Rightarrow> error + (string \<times> tree) list" where
  "tree_add_entry rec target k v =
     (case (map_of target k, v) of
        (Some old, TDict Ordered kts) \<Rightarrow>
          (case (if map_of kts reset_token \<noteq> None then Inr v else rec [old, v]) of
             Inl e \<Rightarrow> Inl e
           | Inr tk \<Rightarrow> Inr (AList.update k (tree_strip tk) target))
      | (Some old, TList []) \<Rightarrow> Inl IndexError
      | (Some old, TList (x # xs)) \<Rightarrow>
          if x = TStr reset_token then Inr (AList.update k (TList xs) target)
          else (case old of
                  TList ys \<Rightarrow> Inr (AList.update k (TList (ys @ x # xs)) target)
                | _ \<Rightarrow> Inl TypeError)
      | _ \<Rightarrow> Inr (AList.update k v target))"

fun tree_add_items ::
  "(tree list \<Rightarrow> error + tree) \<Rightarrow> (string \<times> tree) list \<Rightarrow> (string \<times> tree) list \<Rightarrow> error + (string \<times> tree) list" where
  "tree_add_items rec target [] = Inr target"
| "tree_add_items rec target ((k, v) # kvs) =
     (case tree_add_entry rec target k v of
        Inl e \<Rightarrow> Inl e
      | Inr target' \<Rightarrow> tree_add_items rec target' kvs)"

fun tree_add_dicts ::
  "(tree list \<Rightarrow> error + tree) \<Rightarrow> (string \<times> tree) list \<Rightarrow> tree list \<Rightarrow> error + (string \<times> tree) list" where
  "tree_add_dicts rec target [] = Inr target"
| "tree_add_dicts rec target (d # ds) =
     (case tree_items d of
        Inl e \<Rightarrow> Inl e
      | Inr kvs \<Rightarrow>
          (case tree_add_items rec target kvs of
             Inl e \<Rightarrow> Inl e
           | Inr target' \<Rightarrow> tree_add_dicts rec target' ds))"

definition tree_merge_body :: "(tree list \<Rightarrow> error + tree) \<Rightarrow> tree list \<Rightarrow> error + tree" where
  "tree_merge_body rec dicts =
     (case tree_add_dicts rec [] dicts of Inl e \<Rightarrow> Inl e | Inr target \<Rightarrow> Inr (TDict Ordered target))"

fun tree_merge :: "nat \<Rightarrow> tree list \<Rightarrow> error + tree" where
  "tree_merge 0 dicts = Inl RecursionError"
| "tree_merge (Suc n) dicts = tree_merge_body (tree_merge n) dicts"


text \<open>
  When the merge of two layers returns.  \<open>entry_ok rec_ok old v\<close>: \<^verbatim>\<open>add_entry\<close> raises
  nothing for the incoming value \<open>v\<close> at a key where the result holds \<open>old\<close> (\<open>None\<close>: the
  key is new), given that the recursive call returns on the pairs that \<open>rec_ok\<close> accepts:
  an incoming list is not empty and, unless it starts with the reset token, meets a list;
  an incoming \<^verbatim>\<open>OrderedDict\<close> holds the reset key or can be merged recursively.
  \<open>layers_ok n e i\<close>: the layers \<open>e\<close> and \<open>i\<close> are dictionaries with distinct keys, every
  entry of \<open>i\<close> is accepted against \<open>e\<close>, and the recursion stays within the bound \<open>n\<close>.
\<close>

definition entry_ok :: "(tree \<Rightarrow> tree \<Rightarrow> bool) \<Rightarrow> tree option \<Rightarrow> tree \<Rightarrow> bool" where
  "entry_ok rec_ok old v =
     (case (old, v) of
        (Some x, TDict Ordered kts) \<Rightarrow> map_of kts reset_token \<noteq> None \<or> rec_ok x v
      | (Some x, TList []) \<Rightarrow> False
      | (Some x, TList (y # ys)) \<Rightarrow> y = TStr reset_token \<or> (case x of TList xs \<Rightarrow> True | _ \<Rightarrow> False)
      | _ \<Rightarrow> True)"

fun layers_ok :: "nat \<Rightarrow> tree \<Rightarrow> tree \<Rightarrow> bool" where
  "layers_ok 0 e i = False"
| "layers_ok (Suc n) e i =
     (case (e, i) of
        (TDict ke ekts, TDict ki ikts) \<Rightarrow>
          distinct (map fst ekts) \<and> distinct (map fst ikts) \<and>
          list_all (\<lambda>(k, v). entry_ok (layers_ok n) (map_of ekts k) v) ikts
      | _ \<Rightarrow> False)"


section \<open>Folding the binary merge over the layers\<close>

text \<open>
  The specification's \<open>merge(existing | null, incoming)\<close> and its left fold
  \<open>merge(merge(merge(null, L1), L2), L3)...\<close>, built from the source's function: the
  binary merge is \<^verbatim>\<open>_merge_ordered_dicts([existing, incoming])\<close>, and with an absent
  existing tree \<^verbatim>\<open>_merge_ordered_dicts([incoming])\<close>.  \<open>tree_merge_fold\<close> is the same
  fold on values.
\<close>

definition merge_binary :: "nat \<Rightarrow> heap \<Rightarrow> val option \<Rightarrow> val \<Rightarrow> error + nat \<times> heap" where
  "merge_binary n h existing incoming =
     merge_ordered_dicts n h (case existing of None \<Rightarrow> [incoming] | Some e \<Rightarrow> [e, incoming])"

fun merge_fold :: "nat \<Rightarrow> heap \<Rightarrow> val option \<Rightarrow> val list \<Rightarrow> error + val option \<times> heap" where
  "merge_fold n h acc [] = Inr (acc, h)"
| "merge_fold n h acc (d # ds) =
     (case merge_binary n h acc d of
        Inl e \<Rightarrow> Inl e
      | Inr (r, h') \<Rightarrow> merge_fold n h' (Some (Ref r)) ds)"

fun tree_merge_fold :: "nat \<Rightarrow> tree option \<Rightarrow> tree list \<Rightarrow> error + tree option" where
  "tree_merge_fold n acc [] = Inr acc"
| "tree_merge_fold n acc (d # ds) =
     (case tree_merge n (case acc of None \<Rightarrow> [d] | Some a \<Rightarrow> [a, d]) of
        Inl e \<Rightarrow> Inl e
      | Inr r \<Rightarrow> tree_merge_fold n (Some r) ds)"


section \<open>Representation of trees in the store\<close>

text \<open>
  \<open>rep h A v t\<close>: in the store \<open>h\<close> the value \<open>v\<close> stands for the tree \<open>t\<close>, the objects
  of \<open>t\<close> live exactly at the addresses \<open>A\<close>, and no object occurs twice in it (the parts
  of a list or dictionary occupy disjoint addresses).  \<open>rep_list\<close> and \<open>rep_items\<close> are
  the same for the elements of a list and the entries of a dictionary.
\<close>

inductive rep :: "heap \<Rightarrow> nat set \<Rightarrow> val \<Rightarrow> tree \<Rightarrow> bool"
  and rep_list :: "heap \<Rightarrow> nat set \<Rightarrow> val list \<Rightarrow> tree list \<Rightarrow> bool"
  and rep_items :: "heap \<Rightarrow> nat set \<Rightarrow> (string \<times> val) list \<Rightarrow> (string \<times> tree) list \<Rightarrow> bool"
  for h :: heap where
  rep_None: "rep h {} PNone TNone"
| rep_Bool: "rep h {} (PBool b) (TBool b)"
| rep_Int: "rep h {} (PInt i) (TInt i)"
| rep_Str: "rep h {} (PStr s) (TStr s)"
| rep_List: "a < length h \<Longrightarrow> h ! a = PyList vs \<Longrightarrow> a \<notin> A \<Longrightarrow> rep_list h A vs ts \<Longrightarrow>
     rep h (insert a A) (Ref a) (TList ts)"
| rep_Dict: "a < length h \<Longrightarrow> h ! a = Dict kd kvs \<Longrightarrow> a \<notin> A \<Longrightarrow> rep_items h A kvs kts \<Longrightarrow>
     rep h (insert a A) (Ref a) (TDict kd kts)"
| rep_Nil: "rep_list h {} [] []"
| rep_Cons: "rep h A v t \<Longrightarrow> rep_list h B vs ts \<Longrightarrow> A \<inter> B = {} \<Longrightarrow>
     rep_list h (A \<union> B) (v # vs) (t # ts)"
| rep_items_Nil: "rep_items h {} [] []"
| rep_items_Cons: "rep h A v t \<Longrightarrow> rep_items h B kvs kts \<Longrightarrow> A \<inter> B = {} \<Longrightarrow>
     rep_items h (A \<union> B) ((k, v) # kvs) ((k, t) # kts)"

text \<open>
  \<open>refines rec trec\<close>: on arguments that stand for trees with disjoint objects, \<open>rec\<close>
  raises what \<open>trec\<close> raises, and otherwise returns a fresh address that stands for the
  tree \<open>trec\<close> returns, built from new objects and objects of the arguments, having
  changed nothing outside the arguments.  \<open>entry_post\<close> is the corresponding statement for
  the steps that work on the dictionary \<open>target\<close>; \<open>rep_acc\<close> lifts \<open>rep\<close> to an optional
  accumulator.
\<close>

definition refines ::
  "(heap \<Rightarrow> val list \<Rightarrow> error + nat \<times> heap) \<Rightarrow> (tree list \<Rightarrow> error + tree) \<Rightarrow> bool" where
  "refines rec trec =
     (\<forall>h A vs ts. rep_list h A vs ts \<longrightarrow>
        (case trec ts of
           Inl e \<Rightarrow> rec h vs = Inl e
         | Inr t' \<Rightarrow>
             \<exists>h' A' kts. rec h vs = Inr (length h, h') \<and> length h < length h' \<and>
               t' = TDict Ordered kts \<and> A' \<subseteq> A \<union> {length h..<length h'} \<and>
               rep h' A' (Ref (length h)) t' \<and>
               (\<forall>a<length h. a \<notin> A \<longrightarrow> h' ! a = h ! a)))"

definition entry_post ::
  "heap \<Rightarrow> nat \<Rightarrow> nat set \<Rightarrow> nat set \<Rightarrow> (string \<times> tree) list \<Rightarrow> error + heap \<Rightarrow> bool" where
  "entry_post h t F B T' res =
     (\<exists>h' F' tkvs'. res = Inr h' \<and> length h \<le> length h' \<and>
        F' \<subseteq> F \<union> B \<union> {length h..<length h'} \<and> t \<notin> F' \<and>
        h' ! t = Dict Ordered tkvs' \<and> rep_items h' F' tkvs' T' \<and>
        (\<forall>a<length h. a \<notin> insert t (F \<union> B) \<longrightarrow> h' ! a = h ! a))"


definition rep_acc :: "heap \<Rightarrow> nat set \<Rightarrow> val option \<Rightarrow> tree option \<Rightarrow> bool" where
  "rep_acc h A acc tacc =
     (case (acc, tacc) of
        (None, None) \<Rightarrow> A = {}
      | (Some v, Some t) \<Rightarrow> rep h A v t
      | _ \<Rightarrow> False)"


section \<open>Text helpers\<close>

text \<open>
  The newline, \<^verbatim>\<open>sep.join(xs)\<close> on strings, \<^verbatim>\<open>str(n)\<close> for a natural number, and the
  text an f-string puts for a value.  How Python prints a list or a dictionary is not
  modelled: \<open>container_str\<close>, a parameter, gives the text of the container at an address.
\<close>

definition nl :: string where
  "nl = [CHR 0x0A]"

fun join :: "string \<Rightarrow> string list \<Rightarrow> string" where
  "join sep [] = []"
| "join sep [x] = x"
| "join sep (x # y # ys) = x @ sep @ join sep (y # ys)"

definition digit_char :: "nat \<Rightarrow> char" where
  "digit_char d = ''0123456789'' ! d"

fun str_nat :: "nat \<Rightarrow> string" where
  "str_nat n = (if n < 10 then [digit_char n] else str_nat (n div 10) @ [digit_char (n mod 10)])"

declare str_nat.simps [simp del]

definition py_format :: "(heap \<Rightarrow> nat \<Rightarrow> string) \<Rightarrow> heap \<Rightarrow> val \<Rightarrow> string" where
  "py_format container_str h v =
     (case v of
        PNone \<Rightarrow> ''None''
      | PBool b \<Rightarrow> (if b then ''True'' else ''False'')
      | PInt i \<Rightarrow> (if i < 0 then ''-'' @ str_nat (nat (- i)) else str_nat (nat i))
      | PStr s \<Rightarrow> s
      | Ref a \<Rightarrow> container_str h a)"

section \<open>The section renderers\<close>

text \<open>
  \<^verbatim>\<open>d[k] = v\<close> on any value: only a dictionary supports item assignment with a string
  key.
\<close>

definition py_setitem :: "heap \<Rightarrow> val \<Rightarrow> string \<Rightarrow> val \<Rightarrow> error + heap" where
  "py_setitem h d k v =
     (case d of
        Ref a \<Rightarrow> (case dict_items h d of Some kvs \<Rightarrow> Inr (setitem h a k v) | None \<Rightarrow> Inl TypeError)
      | _ \<Rightarrow> Inl TypeError)"

text \<open>
  \<^verbatim>\<open>_update_type_docs\<close> and \<^verbatim>\<open>_update_term_definitions\<close> have the same body up to the
  source key and the reserved documentation key: the items of the source mapping sorted
  by key, one row \<^verbatim>\<open>| _k_ | v |\<close> each, joined by newlines under the two header lines,
  stored at the reserved key of \<^verbatim>\<open>overall['documentation']\<close>.  A renderer returns the
  exception it raised, if any, and the store at that moment.
\<close>

definition definition_table ::
  "(heap \<Rightarrow> nat \<Rightarrow> string) \<Rightarrow> heap \<Rightarrow> val \<Rightarrow> string \<Rightarrow> string \<Rightarrow> error option \<times> heap" where
  "definition_table container_str h overall source reserved =
     (case getitem h overall source of
        Inl e \<Rightarrow> (Some e, h)
      | Inr defs \<Rightarrow>
          (case py_items h defs of
             Inl e \<Rightarrow> (Some e, h)
           | Inr kvs \<Rightarrow>
               (let desc_str = join nl
                      (map (\<lambda>(k, v). ''| _'' @ k @ ''_ | '' @ py_format container_str h v @ '' |'')
                         (sort_key fst kvs))
                in case getitem h overall ''documentation'' of
                     Inl e \<Rightarrow> (Some e, h)
                   | Inr doc \<Rightarrow>
                       (case py_setitem h doc reserved
                              (PStr (''| Name | Definition |'' @ nl @ ''| -- | -- |'' @ nl @ desc_str @ nl)) of
                          Inl e \<Rightarrow> (Some e, h)
                        | Inr h' \<Rightarrow> (None, h')))))"

definition update_type_docs ::
  "(heap \<Rightarrow> nat \<Rightarrow> string) \<Rightarrow> heap \<Rightarrow> val \<Rightarrow> error option \<times> heap" where
  "update_type_docs container_str h overall =
     definition_table container_str h overall ''type_docs'' ''!type_docs!''"

definition update_term_definitions ::
  "(heap \<Rightarrow> nat \<Rightarrow> string) \<Rightarrow> heap \<Rightarrow> val \<Rightarrow> error option \<times> heap" where
  "update_term_definitions container_str h overall =
     definition_table container_str h overall ''term_definitions'' ''!term_definitions!''"

text \<open>
  \<^verbatim>\<open>_update_response_flags\<close>.  The first loop binds every missing key \<^verbatim>\<open>str(n)\<close>,
  \<open>n\<close> from 0 to 7, of the bits mapping to a new plain dictionary
  \<^verbatim>\<open>{"name": "-", "description": "-"}\<close>; then the header, the dividers and the names are
  built for the bits 7 down to 0, and one bullet line is appended for every bit whose name
  is not \<^verbatim>\<open>'-'\<close>.  \<^verbatim>\<open>" | ".join\<close> raises \<^verbatim>\<open>TypeError\<close> on a name that is not a string.
  A bits value that is not a dictionary raises \<^verbatim>\<open>TypeError\<close> in the first loop or at the
  first subscript.
\<close>

definition default_bit :: obj where
  "default_bit = Dict Plain [(''name'', PStr ''-''), (''description'', PStr ''-'')]"

fun fill_bits :: "heap \<Rightarrow> nat \<Rightarrow> nat list \<Rightarrow> heap" where
  "fill_bits h flags [] = h"
| "fill_bits h flags (n # ns) =
     fill_bits
       (if py_in h (str_nat n) (Ref flags) then h
        else (case alloc h default_bit of (a, h1) \<Rightarrow> setitem h1 flags (str_nat n) (Ref a)))
       flags ns"

definition bits_desc :: "nat list" where
  "bits_desc = [7, 6, 5, 4, 3, 2, 1, 0]"

fun bit_names :: "heap \<Rightarrow> val \<Rightarrow> nat list \<Rightarrow> error + val list" where
  "bit_names h flags [] = Inr []"
| "bit_names h flags (n # ns) =
     (case getitem h flags (str_nat n) of
        Inl e \<Rightarrow> Inl e
      | Inr entry \<Rightarrow>
          (case getitem h entry ''name'' of
             Inl e \<Rightarrow> Inl e
           | Inr name \<Rightarrow>
               (case bit_names h flags ns of Inl e \<Rightarrow> Inl e | Inr names \<Rightarrow> Inr (name # names))))"

fun py_join :: "string \<Rightarrow> val list \<Rightarrow> error + string" where
  "py_join sep vs =
     (if list_all (\<lambda>v. case v of PStr s \<Rightarrow> True | _ \<Rightarrow> False) vs
      then Inr (join sep (map (\<lambda>v. case v of PStr s \<Rightarrow> s | _ \<Rightarrow> []) vs))
      else Inl TypeError)"

fun bit_descriptions ::
  "(heap \<Rightarrow> nat \<Rightarrow> string) \<Rightarrow> heap \<Rightarrow> val \<Rightarrow> string \<Rightarrow> nat list \<Rightarrow> error + string" where
  "bit_descriptions container_str h flags acc [] = Inr acc"
| "bit_descriptions container_str h flags acc (n # ns) =
     (case getitem h flags (str_nat n) of
        Inl e \<Rightarrow> Inl e
      | Inr bit_desc \<Rightarrow>
          (case getitem h bit_desc ''name'' of
             Inl e \<Rightarrow> Inl e
           | Inr name \<Rightarrow>
               if name \<noteq> PStr ''-'' then
                 (case getitem h bit_desc ''description'' of
                    Inl e \<Rightarrow> Inl e
                  | Inr desc \<Rightarrow>
                      bit_descriptions container_str h flags
                        (acc @ nl @ ''* `Bit '' @ str_nat n @ ''`: '' @ py_format container_str h desc) ns)
               else bit_descriptions container_str h flags acc ns))"

definition flags_text :: "(heap \<Rightarrow> nat \<Rightarrow> string) \<Rightarrow> heap \<Rightarrow> val \<Rightarrow> error + string" where
  "flags_text container_str h flags =
     (let header = ''| '' @ join '' | '' (map (\<lambda>n. ''Bit '' @ str_nat n) bits_desc) @ '' |'';
          dividers = ''|'' @ join ''|'' (map (\<lambda>n. ''--'') bits_desc) @ ''|''
      in case bit_names h flags bits_desc of
           Inl e \<Rightarrow> Inl e
         | Inr names \<Rightarrow>
             (case py_join '' | '' names of
                Inl e \<Rightarrow> Inl e
              | Inr joined \<Rightarrow>
                  (case bit_descriptions container_str h flags [] bits_desc of
                     Inl e \<Rightarrow> Inl e
                   | Inr bit_descs \<Rightarrow>
                       Inr (header @ nl @ dividers @ nl @ (''| '' @ joined @ '' |'') @ nl
                            @ bit_descs @ nl))))"

definition update_response_flags ::
  "(heap \<Rightarrow> nat \<Rightarrow> string) \<Rightarrow> heap \<Rightarrow> val \<Rightarrow> error option \<times> heap" where
  "update_response_flags container_str h overall =
     (case getitem h overall ''response_flags'' of
        Inl e \<Rightarrow> (Some e, h)
      | Inr rf \<Rightarrow>
          (case getitem h rf ''bits'' of
             Inl e \<Rightarrow> (Some e, h)
           | Inr flags \<Rightarrow>
               (case (flags, dict_items h flags) of
                  (Ref f, Some kvs) \<Rightarrow>
                    (let h1 = fill_bits h f [0..<8]
                     in case flags_text container_str h1 flags of
                          Inl e \<Rightarrow> (Some e, h1)
                        | Inr text \<Rightarrow>
                            (case getitem h1 overall ''documentation'' of
                               Inl e \<Rightarrow> (Some e, h1)
                             | Inr doc \<Rightarrow>
                                 (case py_setitem h1 doc ''!response_flags!'' (PStr text) of
                                    Inl e \<Rightarrow> (Some e, h1)
                                  | Inr h2 \<Rightarrow> (None, h2))))
                | _ \<Rightarrow> (Some TypeError, h))))"

section \<open>The documentation driver\<close>

text \<open>
  \<^verbatim>\<open>s.strip()\<close> removes leading and trailing whitespace.  Characters are 8-bit here;
  among the code points below 256 Python counts as whitespace 9 to 13, 28 to 32, 133
  (next line) and 160 (no-break space).
\<close>

definition is_space :: "char \<Rightarrow> bool" where
  "is_space c =
     (let n = (of_char c :: nat)
      in (9 \<le> n \<and> n \<le> 13) \<or> (28 \<le> n \<and> n \<le> 32) \<or> n = 133 \<or> n = 160)"

definition py_strip :: "string \<Rightarrow> string" where
  "py_strip s = rev (dropWhile is_space (rev (dropWhile is_space s)))"

text \<open>
  Iteration over a value: the elements of a list, the keys of a dictionary, the
  characters of a string; anything else is not iterable.
\<close>

definition py_iter :: "heap \<Rightarrow> val \<Rightarrow> error + val list" where
  "py_iter h v =
     (case v of
        PStr s \<Rightarrow> Inr (map (\<lambda>c. PStr [c]) s)
      | Ref a \<Rightarrow>
          (case obj_at h v of
             Some (PyList xs) \<Rightarrow> Inr xs
           | Some (Dict kd kvs) \<Rightarrow> Inr (map (\<lambda>kv. PStr (fst kv)) kvs)
           | None \<Rightarrow> Inl TypeError)
      | _ \<Rightarrow> Inl TypeError)"

text \<open>
  The loop \<^verbatim>\<open>for e in overall['documentation']['order']\<close> of \<^verbatim>\<open>xap_generate_docs\<close>:
  the text written to the file so far and the exception that stopped the loop, if any.
  An entry that is a list or a dictionary is unhashable, a value without \<^verbatim>\<open>strip\<close>
  raises \<^verbatim>\<open>AttributeError\<close>.  The file is opened before the order is looked up, so it
  exists, with the text written so far, whatever happens.
\<close>

fun write_sections :: "heap \<Rightarrow> val \<Rightarrow> string \<Rightarrow> val list \<Rightarrow> string \<times> error option" where
  "write_sections h doc out [] = (out, None)"
| "write_sections h doc out (e # es) =
     (case e of
        PStr k \<Rightarrow>
          (case getitem h doc k of
             Inl err \<Rightarrow> (out, Some err)
           | Inr (PStr s) \<Rightarrow> write_sections h doc (out @ py_strip s @ nl @ nl) es
           | Inr _ \<Rightarrow> (out, Some AttributeError))
      | Ref a \<Rightarrow> (out, Some TypeError)
      | _ \<Rightarrow> (out, Some KeyError))"

definition assemble :: "heap \<Rightarrow> val \<Rightarrow> string \<times> error option" where
  "assemble h overall =
     (case getitem h overall ''documentation'' of
        Inl e \<Rightarrow> ([], Some e)
      | Inr doc \<Rightarrow>
          (case getitem h doc ''order'' of
             Inl e \<Rightarrow> ([], Some e)
           | Inr order \<Rightarrow>
               (case py_iter h order of
                  Inl e \<Rightarrow> ([], Some e)
                | Inr es \<Rightarrow> write_sections h doc [] es)))"

definition section_text :: "heap \<Rightarrow> val \<Rightarrow> string \<Rightarrow> string" where
  "section_text h doc k = (case getitem h doc k of Inr (PStr s) \<Rightarrow> py_strip s @ nl @ nl | _ \<Rightarrow> [])"

text \<open>
  The body of the \<^verbatim>\<open>try\<close> block: each renderer runs when its source key is in the
  cumulative tree.
\<close>

definition render_sections ::
  "(heap \<Rightarrow> nat \<Rightarrow> string) \<Rightarrow> heap \<Rightarrow> val \<Rightarrow> error option \<times> heap" where
  "render_sections container_str h overall =
     (case (if py_in h ''type_docs'' overall then update_type_docs container_str h overall
            else (None, h)) of
        (Some e, h1) \<Rightarrow> (Some e, h1)
      | (None, h1) \<Rightarrow>
          (case (if py_in h1 ''term_definitions'' overall
                 then update_term_definitions container_str h1 overall else (None, h1)) of
             (Some e, h2) \<Rightarrow> (Some e, h2)
           | (None, h2) \<Rightarrow>
               (if py_in h2 ''response_flags'' overall
                then update_response_flags container_str h2 overall else (None, h2))))"

text \<open>
  \<^verbatim>\<open>xap_generate_docs\<close>.  The definition files are given as pairs of the file stem and
  the parsed content; \<open>dumps\<close> stands for \<^verbatim>\<open>hjson.dumps\<close>.  The state of a run is the
  files written under \<^verbatim>\<open>docs/\<close> (name and content), the lines printed, and how the run
  ended: to completion, by \<^verbatim>\<open>exit(1)\<close> in the handler, or by an exception nothing
  catches.  Only the three renderers are inside the \<^verbatim>\<open>try\<close>.
  \<^verbatim>\<open>update_xap_definitions\<close> is imported from \<^verbatim>\<open>qmk.xap\<close>, which is not among the sources:
  it is a parameter, called with the store, the cumulative tree (absent before the first
  layer) and the parsed layer, and it raises or returns the address of the new cumulative
  tree and the store.
\<close>

datatype outcome = Completed | Exit nat | Uncaught error

fun layers_loop ::
  "(heap \<Rightarrow> nat \<Rightarrow> string) \<Rightarrow> (heap \<Rightarrow> val \<Rightarrow> string) \<Rightarrow>
   (heap \<Rightarrow> val option \<Rightarrow> val \<Rightarrow> error + nat \<times> heap) \<Rightarrow> heap \<Rightarrow> val option \<Rightarrow> string list \<Rightarrow>
   (string \<times> string) list \<Rightarrow> string list \<Rightarrow> (string \<times> tree) list \<Rightarrow>
   (string \<times> string) list \<times> string list \<times> (outcome + string list)" where
  "layers_loop container_str dumps update_xap_definitions h overall docs_list files out [] =
     (files, out, Inr docs_list)"
| "layers_loop container_str dumps update_xap_definitions h overall docs_list files out
     ((stem, t) # rest) =
     (case store t h of
        (parsed, h0) \<Rightarrow>
          (case update_xap_definitions h0 overall parsed of
             Inl e \<Rightarrow> (files, out, Inl (Uncaught e))
           | Inr (r, h1) \<Rightarrow>
               (case render_sections container_str h1 (Ref r) of
                  (Some e, h2) \<Rightarrow> (files, out @ [dumps h2 (Ref r)], Inl (Exit 1))
                | (None, h2) \<Rightarrow>
                    (case assemble h2 (Ref r) of
                       (text, Some e) \<Rightarrow>
                         (AList.update (stem @ ''.md'') text files, out, Inl (Uncaught e))
                     | (text, None) \<Rightarrow>
                         layers_loop container_str dumps update_xap_definitions h2 (Some (Ref r))
                           (docs_list @ [stem]) (AList.update (stem @ ''.md'') text files) out rest))))"

definition index_text :: "string list \<Rightarrow> string" where
  "index_text docs_list =
     ''# XAP Protocol Reference'' @ nl @ nl @
     concat (map (\<lambda>stem. ''* [XAP Version '' @ drop 4 stem @ '']('' @ stem @ ''.md)'' @ nl)
               (rev (sort_key (\<lambda>stem. stem @ ''.md'') docs_list)))"

definition xap_generate_docs ::
  "(heap \<Rightarrow> nat \<Rightarrow> string) \<Rightarrow> (heap \<Rightarrow> val \<Rightarrow> string) \<Rightarrow>
   (heap \<Rightarrow> val option \<Rightarrow> val \<Rightarrow> error + nat \<times> heap) \<Rightarrow> (string \<times> tree) list \<Rightarrow>
   (string \<times> string) list \<times> string list \<times> outcome" where
  "xap_generate_docs container_str dumps update_xap_definitions layers =
     (case layers_loop container_str dumps update_xap_definitions [] None [] [] [] layers of
        (files, out, Inl oc) \<Rightarrow> (files, out, oc)
      | (files, out, Inr docs_list) \<Rightarrow>
          (AList.update ''xap_protocol.md'' (index_text docs_list) files, out, Completed))"


section \<open>The store operations\<close>

lemma obj_at_setitem:
  "obj_at (setitem h t k v) d =
     (if d = Ref t then map_option (map_items (AList.update k v)) (obj_at h d) else obj_at h d)"
  by (auto simp: obj_at_def setitem_def split: val.splits)

lemma obj_at_delitem:
  "obj_at (delitem h d' k) d =
     (if d = d' then map_option (map_items (AList.delete k)) (obj_at h d) else obj_at h d)"
  by (auto simp: obj_at_def delitem_def split: val.splits)

lemma obj_at_append:
  "obj_at (h @ [ob]) d = (if d = Ref (length h) then Some ob else obj_at h d)"
  by (auto simp: obj_at_def nth_append split: val.splits)

lemma dict_items_setitem:
  "dict_items (setitem h t k v) d =
     (if d = Ref t then map_option (AList.update k v) (dict_items h d) else dict_items h d)"
  by (auto simp: dict_items_def obj_at_setitem map_items_def split: option.splits obj.splits)

lemma dict_items_append: "dict_items h d = Some kvs \<Longrightarrow> dict_items (h @ [ob]) d = Some kvs"
  by (auto simp: dict_items_def obj_at_def nth_append split: val.splits if_splits)

lemma getitem_setitem:
  "py_in h k' (Ref t) \<Longrightarrow> getitem (setitem h t k v) (Ref t) k = Inr v"
  by (auto simp: py_in_def getitem_def dict_items_setitem update_conv' split: option.splits)

lemma length_setitem [simp]: "length (setitem h t k v) = length h"
  by (simp add: setitem_def)

lemma isinstance_OrderedDict_setitem [simp]:
  "isinstance_OrderedDict (setitem h t k v) d = isinstance_OrderedDict h d"
  by (auto simp: isinstance_OrderedDict_def obj_at_setitem map_items_def
      split: option.splits obj.splits dict_kind.splits)

lemma update_fresh_key: "k \<notin> fst ` set al \<Longrightarrow> AList.update k v al = al @ [(k, v)]"
  by (induction al) auto

lemma py_in_fresh_target:
  "py_in (h @ [Dict kd acc]) k (Ref (length h)) = (k \<in> fst ` set acc)"
  by (simp add: py_in_def dict_items_def obj_at_def map_of_eq_None_iff)

lemma setitem_fresh_target:
  "setitem (h @ [Dict kd acc]) (length h) k v = h @ [Dict kd (AList.update k v acc)]"
  by (simp add: setitem_def map_items_def)

section \<open>Single steps of \<^verbatim>\<open>add_entry\<close>\<close>

lemma add_entry_new_key:
  "\<not> py_in h k (Ref target) \<Longrightarrow> add_entry rec h target k v = Inr (setitem h target k v)"
  by (simp add: add_entry_def)

lemma add_entry_empty_list:
  "py_in h k (Ref target) \<Longrightarrow> obj_at h v = Some (PyList []) \<Longrightarrow>
   add_entry rec h target k v = Inl IndexError"
  by (simp add: add_entry_def isinstance_OrderedDict_def isinstance_list_def)

section \<open>What a merge changes in the store\<close>
















section \<open>Merging into an empty result\<close>

lemma add_items_copy:
  "distinct (map fst (acc @ kvs)) \<Longrightarrow>
   add_items rec (h @ [Dict kd acc]) (length h) kvs = Inr (h @ [Dict kd (acc @ kvs)])"
proof (induction kvs arbitrary: acc)
  case Nil
  then show ?case by simp
next
  case (Cons kv kvs)
  obtain k v where kv: "kv = (k, v)" by (cases kv)
  from Cons.prems kv have fresh: "k \<notin> fst ` set acc" by auto
  then have "add_entry rec (h @ [Dict kd acc]) (length h) k v
      = Inr (h @ [Dict kd (acc @ [(k, v)])])"
    by (simp add: add_entry_new_key py_in_fresh_target setitem_fresh_target update_fresh_key)
  moreover from Cons.prems kv have "distinct (map fst ((acc @ [(k, v)]) @ kvs))" by simp
  from Cons.IH[OF this]
  have "add_items rec (h @ [Dict kd (acc @ [(k, v)])]) (length h) kvs
      = Inr (h @ [Dict kd (acc @ kv # kvs)])"
    using kv by simp
  ultimately show ?case using kv by simp
qed

section \<open>Representation: frame and structure\<close>

inductive_cases rep_RefE: "rep h A (Ref a) t"
inductive_cases rep_TListE: "rep h A v (TList ts)"
inductive_cases rep_TDictE: "rep h A v (TDict kd kts)"
inductive_cases rep_TStrE: "rep h A v (TStr s)"
inductive_cases rep_PStrE: "rep h A (PStr s) t"
inductive_cases rep_PNoneE: "rep h A PNone t"
inductive_cases rep_PBoolE: "rep h A (PBool b) t"
inductive_cases rep_PIntE: "rep h A (PInt i) t"
inductive_cases rep_list_NilE: "rep_list h A [] ts"
inductive_cases rep_list_ConsE: "rep_list h A (v # vs) ts"
inductive_cases rep_list_Nil2E: "rep_list h A vs []"
inductive_cases rep_list_Cons2E: "rep_list h A vs (t # ts)"
inductive_cases rep_items_NilE: "rep_items h A [] kts"
inductive_cases rep_items_ConsE: "rep_items h A (kv # kvs) kts"
inductive_cases rep_items_Nil2E: "rep_items h A kvs []"
inductive_cases rep_items_Cons2E: "rep_items h A kvs (kt # kts)"

lemma rep_bound:
  "(rep h A v t \<longrightarrow> (\<forall>a\<in>A. a < length h)) \<and>
   (rep_list h B vs ts \<longrightarrow> (\<forall>a\<in>B. a < length h)) \<and>
   (rep_items h C kvs kts \<longrightarrow> (\<forall>a\<in>C. a < length h))"
  by (induction rule: rep_rep_list_rep_items.induct) auto

lemma rep_frame_aux:
  assumes len: "length h \<le> length h'"
  shows "(rep h A v t \<longrightarrow> (\<forall>a\<in>A. h' ! a = h ! a) \<longrightarrow> rep h' A v t) \<and>
   (rep_list h B vs ts \<longrightarrow> (\<forall>a\<in>B. h' ! a = h ! a) \<longrightarrow> rep_list h' B vs ts) \<and>
   (rep_items h C kvs kts \<longrightarrow> (\<forall>a\<in>C. h' ! a = h ! a) \<longrightarrow> rep_items h' C kvs kts)"
proof (induction rule: rep_rep_list_rep_items.induct)
  case (rep_List a vs A ts)
  then show ?case using len by (auto intro!: rep_rep_list_rep_items.intros)
next
  case (rep_Dict a kd kvs A kts)
  then show ?case using len by (auto intro!: rep_rep_list_rep_items.intros)
qed (auto intro: rep_rep_list_rep_items.intros)

lemma rep_frame:
  "rep h A v t \<Longrightarrow> length h \<le> length h' \<Longrightarrow> (\<forall>a\<in>A. h' ! a = h ! a) \<Longrightarrow> rep h' A v t"
  using rep_frame_aux by blast

lemma rep_list_frame:
  "rep_list h A vs ts \<Longrightarrow> length h \<le> length h' \<Longrightarrow> (\<forall>a\<in>A. h' ! a = h ! a) \<Longrightarrow>
   rep_list h' A vs ts"
  using rep_frame_aux by blast

lemma rep_items_frame:
  "rep_items h A kvs kts \<Longrightarrow> length h \<le> length h' \<Longrightarrow> (\<forall>a\<in>A. h' ! a = h ! a) \<Longrightarrow>
   rep_items h' A kvs kts"
  using rep_frame_aux by blast

lemma rep_items_keys: "rep_items h A kvs kts \<Longrightarrow> map fst kvs = map fst kts"
  by (induction kvs arbitrary: A kts) (auto elim!: rep_items_NilE rep_items_ConsE)

lemma rep_items_map_of_None:
  "rep_items h A kvs kts \<Longrightarrow> (map_of kvs k = None) = (map_of kts k = None)"
  by (drule rep_items_keys) (metis map_of_eq_None_iff set_map)

lemma rep_items_delete:
  "rep_items h A kvs kts \<Longrightarrow> \<exists>A'. A' \<subseteq> A \<and> rep_items h A' (AList.delete k kvs) (AList.delete k kts)"
proof (induction kvs arbitrary: A kts)
  case Nil
  then show ?case by (auto elim!: rep_items_NilE intro: rep_rep_list_rep_items.intros)
next
  case (Cons kv kvs)
  from Cons.prems obtain k' v t A1 A2 kts' where
    kv: "kv = (k', v)" and kts: "kts = (k', t) # kts'" and A: "A = A1 \<union> A2"
    and r: "rep h A1 v t" and rs: "rep_items h A2 kvs kts'" and d: "A1 \<inter> A2 = {}"
    by (auto elim!: rep_items_ConsE)
  from Cons.IH[OF rs] obtain A' where A': "A' \<subseteq> A2" "rep_items h A' (AList.delete k kvs) (AList.delete k kts')"
    by blast
  show ?case
  proof (cases "k' = k")
    case True
    with A' kv kts A show ?thesis by auto
  next
    case False
    from r A'(2) have "rep_items h (A1 \<union> A') ((k', v) # AList.delete k kvs) ((k', t) # AList.delete k kts')"
      using d A'(1) by (intro rep_items_Cons) auto
    moreover have "A1 \<union> A' \<subseteq> A" using A A'(1) by auto
    ultimately show ?thesis using False kv kts by (intro exI[of _ "A1 \<union> A'"]) simp
  qed
qed

lemma rep_list_append:
  "rep_list h A vs ts \<Longrightarrow> rep_list h B ws us \<Longrightarrow> A \<inter> B = {} \<Longrightarrow>
   rep_list h (A \<union> B) (vs @ ws) (ts @ us)"
proof (induction vs arbitrary: A ts)
  case Nil
  then show ?case by (auto elim!: rep_list_NilE)
next
  case (Cons v vs)
  from Cons.prems(1) obtain t ts' A1 A2 where
    ts: "ts = t # ts'" and A: "A = A1 \<union> A2" and r: "rep h A1 v t"
    and rs: "rep_list h A2 vs ts'" and d: "A1 \<inter> A2 = {}"
    by (auto elim!: rep_list_ConsE)
  from Cons.IH[OF rs Cons.prems(2)] Cons.prems(3) A
  have "rep_list h (A2 \<union> B) (vs @ ws) (ts' @ us)" by auto
  with r have "rep_list h (A1 \<union> (A2 \<union> B)) (v # vs @ ws) (t # ts' @ us)"
    using d Cons.prems(3) A by (intro rep_Cons) auto
  then show ?case using ts A by (simp add: Un_assoc)
qed

text \<open>The entry of a key: its footprint and the footprint of the rest.\<close>

lemma rep_items_update:
  assumes "rep_items h F kvs kts"
  shows "\<exists>Fk Fr. F = Fk \<union> Fr \<and> Fk \<inter> Fr = {} \<and>
     (case map_of kvs k of
        None \<Rightarrow> map_of kts k = None \<and> Fk = {}
      | Some old \<Rightarrow> \<exists>told. map_of kts k = Some told \<and> rep h Fk old told) \<and>
     (\<forall>h' A v t. length h \<le> length h' \<longrightarrow> (\<forall>a\<in>Fr. h' ! a = h ! a) \<longrightarrow>
          rep h' A v t \<longrightarrow> A \<inter> Fr = {} \<longrightarrow>
          rep_items h' (A \<union> Fr) (AList.update k v kvs) (AList.update k t kts))"
  using assms
proof (induction kvs arbitrary: F kts)
  case Nil
  then have e: "kts = []" "F = {}" by (auto elim: rep_items_NilE)
  have "rep_items h' (A \<union> {}) [(k, v)] [(k, t)]" if "rep h' A v t" for h' A v t
    using that by (intro rep_items_Cons rep_items_Nil) auto
  then show ?case
    using e by (intro exI[of _ "{}"]) simp
next
  case (Cons kv kvs)
  from Cons.prems obtain k' v0 t0 A1 A2 kts' where
    kv: "kv = (k', v0)" and kts: "kts = (k', t0) # kts'" and F: "F = A1 \<union> A2"
    and r: "rep h A1 v0 t0" and rs: "rep_items h A2 kvs kts'" and d: "A1 \<inter> A2 = {}"
    by (auto elim!: rep_items_ConsE)
  show ?case
  proof (cases "k' = k")
    case True
    have "rep_items h' (A \<union> A2) (AList.update k v (kv # kvs)) (AList.update k t kts)"
      if "length h \<le> length h'" "\<forall>a\<in>A2. h' ! a = h ! a" "rep h' A v t" "A \<inter> A2 = {}"
      for h' A v t
    proof -
      have "rep_items h' A2 kvs kts'" using rs that(1,2) by (rule rep_items_frame)
      with that(3) have "rep_items h' (A \<union> A2) ((k, v) # kvs) ((k, t) # kts')"
        using that(4) by (rule rep_items_Cons)
      then show ?thesis using True kv kts by simp
    qed
    moreover have "case map_of (kv # kvs) k of
        None \<Rightarrow> map_of kts k = None \<and> A1 = {}
      | Some old \<Rightarrow> \<exists>told. map_of kts k = Some told \<and> rep h A1 old told"
      using True kv kts r by simp
    ultimately show ?thesis using F d
      by (intro exI[of _ A1] exI[of _ A2]) simp
  next
    case False
    from Cons.IH[OF rs] obtain Fk Fr where
      A2: "A2 = Fk \<union> Fr" and dk: "Fk \<inter> Fr = {}"
      and look: "(case map_of kvs k of
        None \<Rightarrow> map_of kts' k = None \<and> Fk = {}
      | Some old \<Rightarrow> \<exists>told. map_of kts' k = Some told \<and> rep h Fk old told)"
      and upd: "\<And>h' A v t. length h \<le> length h' \<Longrightarrow> (\<forall>a\<in>Fr. h' ! a = h ! a) \<Longrightarrow>
          rep h' A v t \<Longrightarrow> A \<inter> Fr = {} \<Longrightarrow>
          rep_items h' (A \<union> Fr) (AList.update k v kvs) (AList.update k t kts')"
      by blast
    have "\<forall>h' A v t. length h \<le> length h' \<longrightarrow> (\<forall>a\<in>A1 \<union> Fr. h' ! a = h ! a) \<longrightarrow>
          rep h' A v t \<longrightarrow> A \<inter> (A1 \<union> Fr) = {} \<longrightarrow>
          rep_items h' (A \<union> (A1 \<union> Fr)) (AList.update k v (kv # kvs)) (AList.update k t kts)"
    proof (intro allI impI)
      fix h' A v t
      assume len: "length h \<le> length h'" and same: "\<forall>a\<in>A1 \<union> Fr. h' ! a = h ! a"
        and rv: "rep h' A v t" and dA: "A \<inter> (A1 \<union> Fr) = {}"
      have "rep h' A1 v0 t0" using r len same by (auto intro: rep_frame)
      moreover have "rep_items h' (A \<union> Fr) (AList.update k v kvs) (AList.update k t kts')"
        using upd[OF len _ rv] same dA by auto
      moreover have "A1 \<inter> (A \<union> Fr) = {}" using dA d A2 by auto
      ultimately have "rep_items h' (A1 \<union> (A \<union> Fr)) ((k', v0) # AList.update k v kvs)
          ((k', t0) # AList.update k t kts')"
        by (rule rep_items_Cons)
      moreover have "A1 \<union> (A \<union> Fr) = A \<union> (A1 \<union> Fr)" by auto
      ultimately show "rep_items h' (A \<union> (A1 \<union> Fr)) (AList.update k v (kv # kvs)) (AList.update k t kts)"
        using False kv kts by simp
    qed
    moreover have "F = Fk \<union> (A1 \<union> Fr)" using F A2 by auto
    moreover have "Fk \<inter> (A1 \<union> Fr) = {}" using dk d A2 by auto
    moreover have "case map_of (kv # kvs) k of
        None \<Rightarrow> map_of kts k = None \<and> Fk = {}
      | Some old \<Rightarrow> \<exists>told. map_of kts k = Some told \<and> rep h Fk old told"
      using look False kv kts by (auto split: option.splits)
    ultimately show ?thesis
      by (intro exI[of _ Fk] exI[of _ "A1 \<union> Fr"]) simp
  qed
qed

lemma delete_absent: "map_of al k = None \<Longrightarrow> AList.delete k al = al"
  by (induction al) (auto split: if_splits)

lemma delitem_absent:
  assumes "\<not> py_in h k d"
  shows "delitem h d k = h"
proof (cases d)
  case (Ref a)
  show ?thesis
  proof (cases "a < length h")
    case True
    with assms Ref have "map_items (AList.delete k) (h ! a) = h ! a"
      by (auto simp: py_in_def dict_items_def obj_at_def map_items_def delete_absent
          split: obj.splits)
    then show ?thesis using Ref by (simp add: delitem_def)
  next
    case False
    then show ?thesis using Ref by (simp add: delitem_def list_update_beyond)
  qed
qed (simp_all add: delitem_def)

lemma delitem_if: "(if py_in h k d then Inr (delitem h d k) else Inr h) = (Inr (delitem h d k) :: error + heap)"
  by (simp add: delitem_absent)

lemma length_delitem [simp]: "length (delitem h d k) = length h"
  by (simp add: delitem_def split: val.splits)

lemma nth_delitem: "a \<noteq> c \<Longrightarrow> delitem h (Ref c) k ! a = h ! a"
  by (simp add: delitem_def)

lemma nth_setitem: "a \<noteq> t \<Longrightarrow> setitem h t k v ! a = h ! a"
  by (simp add: setitem_def)

lemma setitem_delitem_swap:
  "t \<noteq> c \<Longrightarrow> delitem (setitem h t k v) (Ref c) k' = setitem (delitem h (Ref c) k') t k v"
  by (simp add: setitem_def delitem_def list_update_swap)

lemma rep_strip:
  assumes "rep h A (Ref c) (TDict kd kts)"
  shows "\<exists>A'. A' \<subseteq> A \<and> rep (delitem h (Ref c) reset_token) A' (Ref c) (tree_strip (TDict kd kts))"
proof -
  from assms obtain kvs A0 where A: "A = insert c A0" and c: "c < length h" "h ! c = Dict kd kvs"
    "c \<notin> A0" and it: "rep_items h A0 kvs kts"
    by (auto elim!: rep_TDictE)
  from rep_items_delete[OF it, of reset_token] obtain A1 where
    A1: "A1 \<subseteq> A0" "rep_items h A1 (AList.delete reset_token kvs) (AList.delete reset_token kts)"
    by blast
  let ?h = "delitem h (Ref c) reset_token"
  have "rep_items ?h A1 (AList.delete reset_token kvs) (AList.delete reset_token kts)"
  proof (intro rep_items_frame[OF A1(2)] ballI)
    fix a assume "a \<in> A1"
    then have "a \<noteq> c" using A1(1) c(3) by auto
    then show "?h ! a = h ! a" by (rule nth_delitem)
  qed simp
  moreover have "?h ! c = Dict kd (AList.delete reset_token kvs)"
    using c by (simp add: delitem_def map_items_def)
  ultimately have "rep ?h (insert c A1) (Ref c) (TDict kd (AList.delete reset_token kts))"
    using c A1(1) by (intro rep_Dict) auto
  then show ?thesis using A A1(1) by (intro exI[of _ "insert c A1"]) (auto simp: tree_strip_def)
qed

lemma entry_post_store:
  assumes tgt: "t < length h" "t \<notin> F" "h ! t = Dict Ordered tkvs" "rep_items h F tkvs T"
    and split: "F = Fk \<union> Fr" "Fk \<inter> Fr = {}"
    and upd: "\<And>h' A v t. length h \<le> length h' \<Longrightarrow> (\<forall>a\<in>Fr. h' ! a = h ! a) \<Longrightarrow>
          rep h' A v t \<Longrightarrow> A \<inter> Fr = {} \<Longrightarrow>
          rep_items h' (A \<union> Fr) (AList.update k v tkvs) (AList.update k t T)"
    and h1: "length h \<le> length h1" "\<forall>a<length h. a \<notin> Fk \<union> B \<longrightarrow> h1 ! a = h ! a"
    and child: "rep h1 A c tc" "A \<subseteq> Fk \<union> B \<union> {length h..<length h1}"
    and B: "B \<inter> insert t F = {}"
  shows "entry_post h t F B (AList.update k tc T) (Inr (setitem h1 t k c))"
proof -
  have Fb: "\<forall>a\<in>F. a < length h" using rep_bound tgt(4) by blast
  have same_Fr: "\<forall>a\<in>Fr. h1 ! a = h ! a"
  proof
    fix a assume a: "a \<in> Fr"
    then have "a < length h" "a \<notin> Fk" "a \<notin> B" using Fb split B by auto
    then show "h1 ! a = h ! a" using h1(2) by simp
  qed
  have "t \<notin> Fk \<union> B" using tgt(2) split(1) B by auto
  then have same_t: "h1 ! t = h ! t" using h1(2) tgt(1) by simp
  have AFr: "A \<inter> Fr = {}"
  proof (rule ccontr)
    assume "A \<inter> Fr \<noteq> {}"
    then obtain a where a: "a \<in> A" "a \<in> Fr" by auto
    then have "a < length h" "a \<notin> Fk" "a \<notin> B" using Fb split B by auto
    with a(1) child(2) show False by auto
  qed
  have tA: "t \<notin> A" using child(2) tgt(1) \<open>t \<notin> Fk \<union> B\<close> by auto
  let ?h' = "setitem h1 t k c"
  have r1: "rep_items h1 (A \<union> Fr) (AList.update k c tkvs) (AList.update k tc T)"
    using upd[OF h1(1) same_Fr child(1) AFr] .
  have tF': "t \<notin> A \<union> Fr" using tA tgt(2) split by auto
  have "rep_items ?h' (A \<union> Fr) (AList.update k c tkvs) (AList.update k tc T)"
  proof (intro rep_items_frame[OF r1] ballI)
    fix a assume "a \<in> A \<union> Fr"
    then have "a \<noteq> t" using tF' by auto
    then show "?h' ! a = h1 ! a" by (rule nth_setitem)
  qed simp
  moreover have "?h' ! t = Dict Ordered (AList.update k c tkvs)"
    using same_t tgt(1,3) h1(1) by (simp add: setitem_def map_items_def)
  moreover have "A \<union> Fr \<subseteq> F \<union> B \<union> {length h..<length ?h'}"
    using child(2) split by auto
  moreover have "\<forall>a<length h. a \<notin> insert t (F \<union> B) \<longrightarrow> ?h' ! a = h ! a"
  proof (intro allI impI)
    fix a assume a: "a < length h" "a \<notin> insert t (F \<union> B)"
    then have "?h' ! a = h1 ! a" by (simp add: nth_setitem)
    also have "h1 ! a = h ! a" using a h1(2) split(1) by simp
    finally show "?h' ! a = h ! a" .
  qed
  ultimately show ?thesis
    unfolding entry_post_def using tF' h1(1)
    by (intro exI[of _ ?h'] exI[of _ "A \<union> Fr"] exI[of _ "AList.update k c tkvs"]) simp
qed

section \<open>Refinement: the store-level merge computes the merge on trees\<close>

lemma rep_scalar_reset:
  "rep h A x tx \<Longrightarrow> (x = PStr s) = (tx = TStr s)"
  by (cases x) (auto elim: rep.cases)

lemma rep_is_OrderedDict:
  "rep h A v tv \<Longrightarrow> isinstance_OrderedDict h v = (\<exists>kts. tv = TDict Ordered kts)"
  by (erule rep.cases) (auto simp: isinstance_OrderedDict_def obj_at_def split: dict_kind.splits)

lemma rep_is_list:
  "rep h A v tv \<Longrightarrow> isinstance_list h v = (\<exists>ts. tv = TList ts)"
  by (erule rep.cases) (auto simp: isinstance_list_def obj_at_def)

lemma refinesD_Inl:
  "refines rec trec \<Longrightarrow> rep_list h A vs ts \<Longrightarrow> trec ts = Inl e \<Longrightarrow> rec h vs = Inl e"
  unfolding refines_def by (drule spec[of _ h], drule spec[of _ A], drule spec[of _ vs], drule spec[of _ ts]) simp

lemma refinesD_Inr:
  "refines rec trec \<Longrightarrow> rep_list h A vs ts \<Longrightarrow> trec ts = Inr t' \<Longrightarrow>
   \<exists>h' A' kts. rec h vs = Inr (length h, h') \<and> length h < length h' \<and>
               t' = TDict Ordered kts \<and> A' \<subseteq> A \<union> {length h..<length h'} \<and>
               rep h' A' (Ref (length h)) t' \<and>
               (\<forall>a<length h. a \<notin> A \<longrightarrow> h' ! a = h ! a)"
  unfolding refines_def by (drule spec[of _ h], drule spec[of _ A], drule spec[of _ vs], drule spec[of _ ts]) simp

lemma add_entry_refines:
  assumes rec: "refines rec trec"
    and tgt: "t < length h" "t \<notin> F" "h ! t = Dict Ordered tkvs" "rep_items h F tkvs T"
    and v: "rep h B v tv"
    and B: "B \<inter> insert t F = {}"
  shows "case tree_add_entry trec T k tv of
           Inl e \<Rightarrow> add_entry rec h t k v = Inl e
         | Inr T' \<Rightarrow> entry_post h t F B T' (add_entry rec h t k v)"
proof -
  from rep_items_update[OF tgt(4), of k] obtain Fk Fr where
    split: "F = Fk \<union> Fr" "Fk \<inter> Fr = {}"
    and look: "case map_of tkvs k of
        None \<Rightarrow> map_of T k = None \<and> Fk = {}
      | Some old \<Rightarrow> \<exists>told. map_of T k = Some told \<and> rep h Fk old told"
    and upd: "\<And>h' A v t. length h \<le> length h' \<Longrightarrow> (\<forall>a\<in>Fr. h' ! a = h ! a) \<Longrightarrow>
          rep h' A v t \<Longrightarrow> A \<inter> Fr = {} \<Longrightarrow>
          rep_items h' (A \<union> Fr) (AList.update k v tkvs) (AList.update k t T)"
    by blast
  note store = entry_post_store[OF tgt split upd _ _ _ _ B]
  have Bb: "\<forall>a\<in>B. a < length h" using rep_bound v by blast
  have di: "dict_items h (Ref t) = Some tkvs"
    using tgt(1,3) by (simp add: dict_items_def obj_at_def)
  have kin: "py_in h k (Ref t) = (map_of tkvs k \<noteq> None)"
    by (simp add: py_in_def di)
  have plain: "entry_post h t F B (AList.update k tv T) (Inr (setitem h t k v))"
    using v by (intro store) auto
  show ?thesis
  proof (cases "map_of tkvs k")
    case None
    then have "map_of T k = None" using look by simp
    then have "tree_add_entry trec T k tv = Inr (AList.update k tv T)"
      by (simp add: tree_add_entry_def)
    moreover have "add_entry rec h t k v = Inr (setitem h t k v)"
      using None kin by (simp add: add_entry_def)
    ultimately show ?thesis using plain by simp
  next
    case (Some old)
    with look obtain told where told: "map_of T k = Some told" and ro: "rep h Fk old told"
      by auto
    have kin': "py_in h k (Ref t)" using kin Some by simp
    have gold: "getitem h (Ref t) k = Inr old" using Some di by (simp add: getitem_def)
    have FkB: "Fk \<inter> B = {}" using split(1) B by auto
    have tr: "t \<notin> Fk \<union> B" using tgt(2) split(1) B by auto
    consider (dict) vkts where "tv = TDict Ordered vkts"
      | (list) vts where "tv = TList vts"
      | (other) "\<not> isinstance_OrderedDict h v" "\<not> isinstance_list h v"
          "\<forall>kts. tv \<noteq> TDict Ordered kts" "\<forall>ts. tv \<noteq> TList ts"
      using rep_is_OrderedDict[OF v] rep_is_list[OF v] by blast
    then show ?thesis
    proof cases
      case other
      then have "tree_add_entry trec T k tv = Inr (AList.update k tv T)"
        by (cases tv; simp add: tree_add_entry_def told split: dict_kind.splits)
      moreover have "add_entry rec h t k v = Inr (setitem h t k v)"
        using other by (simp add: add_entry_def)
      ultimately show ?thesis using plain by simp
    next
      case dict
      with v obtain b vkvs B0 where vb: "v = Ref b" and Bi: "B = insert b B0"
        and b: "b < length h" "h ! b = Dict Ordered vkvs" "b \<notin> B0"
        and vit: "rep_items h B0 vkvs vkts"
        by (auto elim!: rep_TDictE)
      have od: "isinstance_OrderedDict h v" using rep_is_OrderedDict[OF v] dict by simp
      have bt: "t \<noteq> b" using tr Bi by auto
      have rin: "py_in h reset_token v = (map_of vkts reset_token \<noteq> None)"
        using b vb rep_items_map_of_None[OF vit, of reset_token]
        by (simp add: py_in_def dict_items_def obj_at_def)
      show ?thesis
      proof (cases "map_of vkts reset_token \<noteq> None")
        case True
        let ?h1 = "delitem h v reset_token"
        have "getitem (setitem h t k v) (Ref t) k = Inr v"
          using kin' by (rule getitem_setitem)
        then have "add_entry rec h t k v = Inr (delitem (setitem h t k v) v reset_token)"
          using kin' od rin True by (simp add: add_entry_def delitem_if)
        then have ae: "add_entry rec h t k v = Inr (setitem ?h1 t k v)"
          using bt vb by (simp add: setitem_delitem_swap)
        have te: "tree_add_entry trec T k tv = Inr (AList.update k (tree_strip tv) T)"
          using True dict told by (simp add: tree_add_entry_def)
        from rep_strip[of h B b Ordered vkts] v vb dict obtain A' where
          A': "A' \<subseteq> B" "rep ?h1 A' v (tree_strip tv)" by auto
        have "entry_post h t F B (AList.update k (tree_strip tv) T) (Inr (setitem ?h1 t k v))"
        proof (rule store)
          show "\<forall>a<length h. a \<notin> Fk \<union> B \<longrightarrow> ?h1 ! a = h ! a"
            using vb Bi by (auto simp: nth_delitem)
        qed (use A' in auto)
        then show ?thesis using ae te by simp
      next
        case False
        have te: "tree_add_entry trec T k tv =
            (case trec [told, tv] of Inl e \<Rightarrow> Inl e
             | Inr tk \<Rightarrow> Inr (AList.update k (tree_strip tk) T))"
          using False dict told by (simp add: tree_add_entry_def)
        have rl: "rep_list h (Fk \<union> (B \<union> {})) [old, v] [told, tv]"
          using ro v FkB by (intro rep_Cons rep_Nil) auto
        show ?thesis
        proof (cases "trec [told, tv]")
          case (Inl e)
          with rec rl have "rec h [old, v] = Inl e"
            by (rule refinesD_Inl)
          then have "add_entry rec h t k v = Inl e"
            using kin' od rin False gold by (simp add: add_entry_def)
          then show ?thesis using te Inl by simp
        next
          case (Inr t')
          from refinesD_Inr[OF rec rl Inr] obtain h1 A' rkts where
            r: "rec h [old, v] = Inr (length h, h1)" and len: "length h < length h1"
            and t': "t' = TDict Ordered rkts"
            and A': "A' \<subseteq> Fk \<union> (B \<union> {}) \<union> {length h..<length h1}"
            and rr: "rep h1 A' (Ref (length h)) t'"
            and fr: "\<forall>a<length h. a \<notin> Fk \<union> (B \<union> {}) \<longrightarrow> h1 ! a = h ! a"
            by blast
          let ?r = "Ref (length h)"
          let ?h1 = "delitem h1 ?r reset_token"
          have "h1 ! t = h ! t" using fr tr tgt(1) by simp
          then have "dict_items h1 (Ref t) = Some tkvs"
            using tgt(1,3) len by (simp add: dict_items_def obj_at_def)
          then have "getitem (setitem h1 t k ?r) (Ref t) k = Inr ?r"
            by (simp add: getitem_def dict_items_setitem update_conv')
          then have "add_entry rec h t k v = Inr (delitem (setitem h1 t k ?r) ?r reset_token)"
            using kin' od rin False gold r by (simp add: add_entry_def delitem_if)
          then have ae: "add_entry rec h t k v = Inr (setitem ?h1 t k ?r)"
            using tgt(1) by (simp add: setitem_delitem_swap)
          from rep_strip[of h1 A' "length h" Ordered rkts] rr t' obtain A'' where
            A'': "A'' \<subseteq> A'" "rep ?h1 A'' ?r (tree_strip t')" by auto
          have "entry_post h t F B (AList.update k (tree_strip t') T) (Inr (setitem ?h1 t k ?r))"
          proof (rule store)
            show "\<forall>a<length h. a \<notin> Fk \<union> B \<longrightarrow> ?h1 ! a = h ! a"
              using fr by (auto simp: nth_delitem)
            show "A'' \<subseteq> Fk \<union> B \<union> {length h..<length ?h1}"
              using A''(1) A' by auto
          qed (use A'' len in auto)
          then show ?thesis using ae te Inr by simp
        qed
      qed
    next
      case list
      with v obtain b vvs B0 where vb: "v = Ref b" and Bi: "B = insert b B0"
        and b: "b < length h" "h ! b = PyList vvs" "b \<notin> B0"
        and vl: "rep_list h B0 vvs vts"
        by (auto elim!: rep_TListE)
      have nod: "\<not> isinstance_OrderedDict h v" using rep_is_OrderedDict[OF v] list by simp
      have il: "isinstance_list h v" using rep_is_list[OF v] list by simp
      have ov: "obj_at h v = Some (PyList vvs)" using vb b by (simp add: obj_at_def)
      let ?a = "length h"
      have fresh:
        "entry_post h t F B (AList.update k (TList ts) T) (Inr (setitem (h @ [PyList vs]) t k (Ref ?a)))"
        if rl: "rep_list h A vs ts" and A: "A \<subseteq> Fk \<union> B" for A vs ts
      proof (rule store)
        let ?h1 = "h @ [PyList vs]"
        have "rep_list ?h1 A vs ts"
          by (intro rep_list_frame[OF rl]) (auto simp: nth_append dest: rep_bound[THEN conjunct2, THEN conjunct1, rule_format, OF rl])
        moreover have "?a \<notin> A"
          using rep_bound[THEN conjunct2, THEN conjunct1, rule_format, OF rl] by auto
        ultimately show "rep ?h1 (insert ?a A) (Ref ?a) (TList ts)"
          by (intro rep_List) auto
        show "insert ?a A \<subseteq> Fk \<union> B \<union> {length h..<length ?h1}" using A by auto
      qed (auto simp: nth_append)
      show ?thesis
      proof (cases vts)
        case Nil
        with vl have "vvs = []" by (auto elim: rep_list_Nil2E)
        then have "add_entry rec h t k v = Inl IndexError"
          using kin' nod il ov by (simp add: add_entry_def)
        moreover have "tree_add_entry trec T k tv = Inl IndexError"
          using Nil list told by (simp add: tree_add_entry_def)
        ultimately show ?thesis by simp
      next
        case (Cons tx txs)
        with vl obtain x xs Bx Bxs where vvs: "vvs = x # xs" and B0: "B0 = Bx \<union> Bxs"
          and rx: "rep h Bx x tx" and rxs: "rep_list h Bxs xs txs" and dx: "Bx \<inter> Bxs = {}"
          by (auto elim!: rep_list_Cons2E)
        have xr: "(x = PStr reset_token) = (tx = TStr reset_token)"
          using rx by (rule rep_scalar_reset)
        show ?thesis
        proof (cases "tx = TStr reset_token")
          case True
          then have "add_entry rec h t k v = Inr (setitem (h @ [PyList xs]) t k (Ref ?a))"
            using kin' nod il ov vvs xr by (simp add: add_entry_def alloc_def)
          moreover have "tree_add_entry trec T k tv = Inr (AList.update k (TList txs) T)"
            using True Cons list told by (simp add: tree_add_entry_def)
          moreover have "entry_post h t F B (AList.update k (TList txs) T)
              (Inr (setitem (h @ [PyList xs]) t k (Ref ?a)))"
            using rxs B0 Bi by (intro fresh) auto
          ultimately show ?thesis by simp
        next
          case False
          show ?thesis
          proof (cases "\<exists>tys. told = TList tys")
            case True
            then obtain tys where tys: "told = TList tys" ..
            with ro obtain c ys Fk0 where oc: "old = Ref c" and Fki: "Fk = insert c Fk0"
              and c: "c < length h" "h ! c = PyList ys" "c \<notin> Fk0"
              and rys: "rep_list h Fk0 ys tys"
              by (auto elim!: rep_TListE)
            have "obj_at h old = Some (PyList ys)" using oc c by (simp add: obj_at_def)
            then have "add_entry rec h t k v
                = Inr (setitem (h @ [PyList (ys @ x # xs)]) t k (Ref ?a))"
              using kin' nod il ov vvs xr False gold by (simp add: add_entry_def alloc_def)
            moreover have "tree_add_entry trec T k tv
                = Inr (AList.update k (TList (tys @ tx # txs)) T)"
              using False Cons list told tys by (simp add: tree_add_entry_def)
            moreover have "rep_list h (Fk0 \<union> B0) (ys @ x # xs) (tys @ tx # txs)"
              using rys vl vvs Cons FkB Fki Bi by (intro rep_list_append) auto
            then have "entry_post h t F B (AList.update k (TList (tys @ tx # txs)) T)
              (Inr (setitem (h @ [PyList (ys @ x # xs)]) t k (Ref ?a)))"
              using Fki Bi by (intro fresh) auto
            ultimately show ?thesis by simp
          next
            case nl: False
            then have "\<not> isinstance_list h old" using rep_is_list[OF ro] by simp
            then have "add_entry rec h t k v = Inl TypeError"
              using kin' nod il ov vvs xr False gold
              by (auto simp: add_entry_def isinstance_list_def split: option.splits obj.splits)
            moreover have "tree_add_entry trec T k tv = Inl TypeError"
              using False Cons list told nl by (cases told) (simp_all add: tree_add_entry_def)
            ultimately show ?thesis by simp
          qed
        qed
      qed
    qed
  qed
qed

lemma entry_post_trans:
  assumes len1: "length h \<le> length h1"
    and F1: "F1 \<subseteq> F \<union> B1 \<union> {length h..<length h1}"
    and fr1: "\<forall>a<length h. a \<notin> insert t (F \<union> B1) \<longrightarrow> h1 ! a = h ! a"
    and 2: "entry_post h1 t F1 B2 T2 res"
  shows "entry_post h t F (B1 \<union> B2) T2 res"
proof -
  from 2 obtain h' F' tkvs' where res: "res = Inr h'" and len2: "length h1 \<le> length h'"
    and F': "F' \<subseteq> F1 \<union> B2 \<union> {length h1..<length h'}" and t': "t \<notin> F'"
    and ht: "h' ! t = Dict Ordered tkvs'" and ri: "rep_items h' F' tkvs' T2"
    and fr2: "\<forall>a<length h1. a \<notin> insert t (F1 \<union> B2) \<longrightarrow> h' ! a = h1 ! a"
    unfolding entry_post_def by auto
  have "{length h..<length h1} \<subseteq> {length h..<length h'}"
    "{length h1..<length h'} \<subseteq> {length h..<length h'}"
    using len1 len2 by auto
  then have "F' \<subseteq> F \<union> (B1 \<union> B2) \<union> {length h..<length h'}"
    using F' F1 by blast
  moreover have "\<forall>a<length h. a \<notin> insert t (F \<union> (B1 \<union> B2)) \<longrightarrow> h' ! a = h ! a"
  proof (intro allI impI)
    fix a assume a: "a < length h" "a \<notin> insert t (F \<union> (B1 \<union> B2))"
    then have "a \<notin> insert t (F1 \<union> B2)" using F1 by auto
    then have "h' ! a = h1 ! a" using fr2 a(1) len1 by simp
    also have "h1 ! a = h ! a" using fr1 a by simp
    finally show "h' ! a = h ! a" .
  qed
  ultimately show ?thesis
    unfolding entry_post_def using res len1 len2 t' ht ri
    by (intro exI[of _ h'] exI[of _ F'] exI[of _ tkvs']) simp
qed

lemma entry_post_mono:
  assumes "entry_post h t F B T' res" and "B \<subseteq> C"
  shows "entry_post h t F C T' res"
proof -
  from assms(1) obtain h' F' tkvs' where res: "res = Inr h'" and len: "length h \<le> length h'"
    and F': "F' \<subseteq> F \<union> B \<union> {length h..<length h'}" and t': "t \<notin> F'"
    and ht: "h' ! t = Dict Ordered tkvs'" and ri: "rep_items h' F' tkvs' T'"
    and fr: "\<forall>a<length h. a \<notin> insert t (F \<union> B) \<longrightarrow> h' ! a = h ! a"
    unfolding entry_post_def by auto
  have "F' \<subseteq> F \<union> C \<union> {length h..<length h'}" using F' assms(2) by blast
  moreover have "\<forall>a<length h. a \<notin> insert t (F \<union> C) \<longrightarrow> h' ! a = h ! a"
    using fr assms(2) by auto
  ultimately show ?thesis
    unfolding entry_post_def using res len t' ht ri
    by (intro exI[of _ h'] exI[of _ F'] exI[of _ tkvs']) simp
qed

lemma entry_post_refl:
  assumes "t < length h" "t \<notin> F" "h ! t = Dict Ordered tkvs" "rep_items h F tkvs T"
  shows "entry_post h t F B T (Inr h)"
  unfolding entry_post_def using assms
  by (intro exI[of _ h] exI[of _ F] exI[of _ tkvs]) auto

lemma add_items_refines:
  assumes rec: "refines rec trec"
  shows "t < length h \<Longrightarrow> t \<notin> F \<Longrightarrow> h ! t = Dict Ordered tkvs \<Longrightarrow> rep_items h F tkvs T \<Longrightarrow>
     rep_items h B kvs kts \<Longrightarrow> B \<inter> insert t F = {} \<Longrightarrow>
     (case tree_add_items trec T kts of
        Inl e \<Rightarrow> add_items rec h t kvs = Inl e
      | Inr T' \<Rightarrow> entry_post h t F B T' (add_items rec h t kvs))"
proof (induction kvs arbitrary: h F tkvs T B kts)
  case Nil
  then have "kts = []" by (auto elim: rep_items_NilE)
  moreover have "entry_post h t F B T (Inr h)"
    using Nil.prems(1-4) by (rule entry_post_refl)
  ultimately show ?case by simp
next
  case (Cons kv kvs)
  from Cons.prems(5) obtain k v tv B1 B2 kts' where
    kv: "kv = (k, v)" and kts: "kts = (k, tv) # kts'" and Bs: "B = B1 \<union> B2"
    and rv: "rep h B1 v tv" and rs: "rep_items h B2 kvs kts'" and d: "B1 \<inter> B2 = {}"
    by (auto elim!: rep_items_ConsE)
  have B1: "B1 \<inter> insert t F = {}" using Cons.prems(6) Bs by auto
  note step = add_entry_refines[OF rec Cons.prems(1-4) rv B1, of k]
  show ?case
  proof (cases "tree_add_entry trec T k tv")
    case (Inl e)
    with step have "add_entry rec h t k v = Inl e" by simp
    then show ?thesis using Inl kv kts by simp
  next
    case (Inr T1)
    with step have p1: "entry_post h t F B1 T1 (add_entry rec h t k v)" by simp
    then obtain h1 F1 tkvs1 where ae: "add_entry rec h t k v = Inr h1"
      and len1: "length h \<le> length h1"
      and F1: "F1 \<subseteq> F \<union> B1 \<union> {length h..<length h1}" and t1: "t \<notin> F1"
      and ht1: "h1 ! t = Dict Ordered tkvs1" and ri1: "rep_items h1 F1 tkvs1 T1"
      and fr1: "\<forall>a<length h. a \<notin> insert t (F \<union> B1) \<longrightarrow> h1 ! a = h ! a"
      unfolding entry_post_def by auto
    have B2b: "\<forall>a\<in>B2. a < length h" using rep_bound rs by blast
    have rs1: "rep_items h1 B2 kvs kts'"
    proof (intro rep_items_frame[OF rs len1] ballI)
      fix a assume a: "a \<in> B2"
      then have "a < length h" "a \<notin> insert t (F \<union> B1)"
        using B2b Cons.prems(6) Bs d by auto
      then show "h1 ! a = h ! a" using fr1 by simp
    qed
    have B2F1: "B2 \<inter> insert t F1 = {}"
    proof (rule ccontr)
      assume "B2 \<inter> insert t F1 \<noteq> {}"
      then obtain a where a: "a \<in> B2" "a \<in> insert t F1" by auto
      then have "a < length h" "a \<noteq> t" "a \<notin> F" "a \<notin> B1"
        using B2b Cons.prems(6) Bs d by auto
      with a(2) F1 show False by auto
    qed
    have t1': "t < length h1" using Cons.prems(1) len1 by simp
    note ih = Cons.IH[OF t1' t1 ht1 ri1 rs1 B2F1]
    have eq: "add_items rec h t (kv # kvs) = add_items rec h1 t kvs"
      using ae kv by simp
    have teq: "tree_add_items trec T kts = tree_add_items trec T1 kts'"
      using Inr kts by simp
    show ?thesis
    proof (cases "tree_add_items trec T1 kts'")
      case (Inl e)
      with ih show ?thesis using eq teq by simp
    next
      case Inr2: (Inr T2)
      with ih have p2: "entry_post h1 t F1 B2 T2 (add_items rec h1 t kvs)" by simp
      have "entry_post h t F (B1 \<union> B2) T2 (add_items rec h1 t kvs)"
        using len1 F1 fr1 p2 by (rule entry_post_trans)
      then show ?thesis using eq teq Inr2 Bs by simp
    qed
  qed
qed


lemma rep_items_of:
  assumes "rep h C d td"
  shows "case tree_items td of
           Inl e \<Rightarrow> py_items h d = Inl e
         | Inr kts \<Rightarrow> \<exists>kvs B. py_items h d = Inr kvs \<and> B \<subseteq> C \<and> rep_items h B kvs kts"
  using assms
proof (cases rule: rep.cases)
  case (rep_Dict a kd kvs A kts)
  then have "py_items h d = Inr kvs" "tree_items td = Inr kts"
    by (simp_all add: tree_items_def py_items_def dict_items_def obj_at_def)
  then show ?thesis using rep_Dict by auto
qed (simp_all add: tree_items_def py_items_def dict_items_def obj_at_def)

lemma add_dicts_refines:
  assumes rec: "refines rec trec"
  shows "t < length h \<Longrightarrow> t \<notin> F \<Longrightarrow> h ! t = Dict Ordered tkvs \<Longrightarrow> rep_items h F tkvs T \<Longrightarrow>
     rep_list h C ds tds \<Longrightarrow> C \<inter> insert t F = {} \<Longrightarrow>
     (case tree_add_dicts trec T tds of
        Inl e \<Rightarrow> add_dicts rec h t ds = Inl e
      | Inr T' \<Rightarrow> entry_post h t F C T' (add_dicts rec h t ds))"
proof (induction ds arbitrary: h F tkvs T C tds)
  case Nil
  then have "tds = []" by (auto elim: rep_list_NilE)
  moreover have "entry_post h t F C T (Inr h)"
    using Nil.prems(1-4) by (rule entry_post_refl)
  ultimately show ?case by simp
next
  case (Cons d ds)
  from Cons.prems(5) obtain td C1 C2 tds' where
    tds: "tds = td # tds'" and Cs: "C = C1 \<union> C2"
    and rd: "rep h C1 d td" and rs: "rep_list h C2 ds tds'" and dj: "C1 \<inter> C2 = {}"
    by (auto elim!: rep_list_ConsE)
  show ?case
  proof (cases "tree_items td")
    case (Inl e)
    with rep_items_of[OF rd] have "py_items h d = Inl e" by simp
    then show ?thesis using Inl tds by simp
  next
    case (Inr kts)
    with rep_items_of[OF rd] obtain kvs B where
      pi: "py_items h d = Inr kvs" and B: "B \<subseteq> C1" and ri: "rep_items h B kvs kts"
      by auto
    have BF: "B \<inter> insert t F = {}" using B Cs Cons.prems(6) by auto
    note step = add_items_refines[OF rec Cons.prems(1-4) ri BF]
    show ?thesis
    proof (cases "tree_add_items trec T kts")
      case Inl2: (Inl e)
      with step have "add_items rec h t kvs = Inl e" by simp
      then show ?thesis using Inl2 Inr pi tds by simp
    next
      case Inr2: (Inr T1)
      with step have "entry_post h t F B T1 (add_items rec h t kvs)" by simp
      then obtain h1 F1 tkvs1 where ae: "add_items rec h t kvs = Inr h1"
        and len1: "length h \<le> length h1"
        and F1: "F1 \<subseteq> F \<union> B \<union> {length h..<length h1}" and t1: "t \<notin> F1"
        and ht1: "h1 ! t = Dict Ordered tkvs1" and ri1: "rep_items h1 F1 tkvs1 T1"
        and fr1: "\<forall>a<length h. a \<notin> insert t (F \<union> B) \<longrightarrow> h1 ! a = h ! a"
        unfolding entry_post_def by auto
      have C2b: "\<forall>a\<in>C2. a < length h" using rep_bound rs by blast
      have rs1: "rep_list h1 C2 ds tds'"
      proof (intro rep_list_frame[OF rs len1] ballI)
        fix a assume a: "a \<in> C2"
        then have "a < length h" "a \<notin> insert t (F \<union> B)"
          using C2b Cons.prems(6) Cs dj B by auto
        then show "h1 ! a = h ! a" using fr1 by simp
      qed
      have C2F1: "C2 \<inter> insert t F1 = {}"
      proof (rule ccontr)
        assume "C2 \<inter> insert t F1 \<noteq> {}"
        then obtain a where a: "a \<in> C2" "a \<in> insert t F1" by auto
        then have "a < length h" "a \<noteq> t" "a \<notin> F" "a \<notin> B"
          using C2b Cons.prems(6) Cs dj B by auto
        with a(2) F1 show False by auto
      qed
      have t1': "t < length h1" using Cons.prems(1) len1 by simp
      note ih = Cons.IH[OF t1' t1 ht1 ri1 rs1 C2F1]
      have eq: "add_dicts rec h t (d # ds) = add_dicts rec h1 t ds"
        using ae pi by simp
      have teq: "tree_add_dicts trec T tds = tree_add_dicts trec T1 tds'"
        using Inr Inr2 tds by simp
      show ?thesis
      proof (cases "tree_add_dicts trec T1 tds'")
        case (Inl e)
        with ih show ?thesis using eq teq by simp
      next
        case Inr3: (Inr T2)
        with ih have p2: "entry_post h1 t F1 C2 T2 (add_dicts rec h1 t ds)" by simp
        have "entry_post h t F (B \<union> C2) T2 (add_dicts rec h1 t ds)"
          using len1 F1 fr1 p2 by (rule entry_post_trans)
        moreover have "B \<union> C2 \<subseteq> C" using B Cs by auto
        ultimately have "entry_post h t F C T2 (add_dicts rec h1 t ds)"
          by (rule entry_post_mono)
        then show ?thesis using eq teq Inr3 by simp
      qed
    qed
  qed
qed

lemma merge_body_refines:
  assumes rec: "refines rec trec"
  shows "refines (merge_body rec) (tree_merge_body trec)"
  unfolding refines_def
proof (intro allI impI)
  fix h A vs ts
  assume rl: "rep_list h A vs ts"
  let ?r = "length h"
  let ?h0 = "h @ [Dict Ordered []]"
  have Ab: "\<forall>a\<in>A. a < length h" using rep_bound rl by blast
  have rl0: "rep_list ?h0 A vs ts"
    using Ab by (intro rep_list_frame[OF rl]) (auto simp: nth_append)
  have A0: "A \<inter> insert ?r {} = {}" using Ab by auto
  have mb: "merge_body rec h vs =
      (case add_dicts rec ?h0 ?r vs of Inl e \<Rightarrow> Inl e | Inr h' \<Rightarrow> Inr (?r, h'))"
    by (simp add: merge_body_def alloc_def)
  have step: "case tree_add_dicts trec [] ts of
        Inl e \<Rightarrow> add_dicts rec ?h0 ?r vs = Inl e
      | Inr T' \<Rightarrow> entry_post ?h0 ?r {} A T' (add_dicts rec ?h0 ?r vs)"
    by (rule add_dicts_refines[OF rec _ _ _ rep_items_Nil rl0 A0]) simp_all
  show "case tree_merge_body trec ts of
      Inl e \<Rightarrow> merge_body rec h vs = Inl e
    | Inr t' \<Rightarrow> \<exists>h' A' kts. merge_body rec h vs = Inr (length h, h') \<and> length h < length h' \<and>
        t' = TDict Ordered kts \<and> A' \<subseteq> A \<union> {length h..<length h'} \<and>
        rep h' A' (Ref (length h)) t' \<and> (\<forall>a<length h. a \<notin> A \<longrightarrow> h' ! a = h ! a)"
  proof (cases "tree_add_dicts trec [] ts")
    case (Inl e)
    with step have "add_dicts rec ?h0 ?r vs = Inl e" by simp
    then show ?thesis using Inl mb by (simp add: tree_merge_body_def)
  next
    case (Inr T')
    with step obtain h' F' tkvs' where ad: "add_dicts rec ?h0 ?r vs = Inr h'"
      and len: "length ?h0 \<le> length h'"
      and F': "F' \<subseteq> {} \<union> A \<union> {length ?h0..<length h'}" and r': "?r \<notin> F'"
      and hr: "h' ! ?r = Dict Ordered tkvs'" and ri: "rep_items h' F' tkvs' T'"
      and fr: "\<forall>a<length ?h0. a \<notin> insert ?r ({} \<union> A) \<longrightarrow> h' ! a = ?h0 ! a"
      unfolding entry_post_def by auto
    have "rep h' (insert ?r F') (Ref ?r) (TDict Ordered T')"
      using len hr r' ri by (intro rep_Dict) auto
    moreover have "insert ?r F' \<subseteq> A \<union> {length h..<length h'}"
      using F' len by auto
    moreover have "\<forall>a<length h. a \<notin> A \<longrightarrow> h' ! a = h ! a"
    proof (intro allI impI)
      fix a assume a: "a < length h" "a \<notin> A"
      then have "h' ! a = ?h0 ! a" using fr by simp
      then show "h' ! a = h ! a" using a(1) by (simp add: nth_append)
    qed
    moreover have "merge_body rec h vs = Inr (?r, h')" using mb ad by simp
    moreover have "length h < length h'" using len by simp
    ultimately have "merge_body rec h vs = Inr (length h, h') \<and> length h < length h' \<and>
        TDict Ordered T' = TDict Ordered T' \<and> insert ?r F' \<subseteq> A \<union> {length h..<length h'} \<and>
        rep h' (insert ?r F') (Ref (length h)) (TDict Ordered T') \<and>
        (\<forall>a<length h. a \<notin> A \<longrightarrow> h' ! a = h ! a)"
      by simp
    then have "\<exists>h'' A' kts. merge_body rec h vs = Inr (length h, h'') \<and> length h < length h'' \<and>
        TDict Ordered T' = TDict Ordered kts \<and> A' \<subseteq> A \<union> {length h..<length h''} \<and>
        rep h'' A' (Ref (length h)) (TDict Ordered T') \<and>
        (\<forall>a<length h. a \<notin> A \<longrightarrow> h'' ! a = h ! a)"
      by (intro exI[of _ h'] exI[of _ "insert ?r F'"] exI[of _ T'])
    then show ?thesis using Inr by (simp add: tree_merge_body_def)
  qed
qed

lemma merge_refines: "refines (merge_ordered_dicts n) (tree_merge n)"
proof (induction n)
  case 0
  show ?case by (simp add: refines_def)
next
  case (Suc n)
  have "merge_ordered_dicts (Suc n) = merge_body (merge_ordered_dicts n)"
    by (intro ext) simp
  moreover have "tree_merge (Suc n) = tree_merge_body (tree_merge n)"
    by (intro ext) simp
  ultimately
  show ?case using Suc by (simp add: merge_body_refines)
qed

text \<open>Parsing a tree into the store yields a representation of it at fresh addresses.\<close>



lemma take_nth: "take n h' = h \<Longrightarrow> a < length h \<Longrightarrow> h' ! a = h ! a"
  by (metis nth_take length_take min_less_iff_conj)

lemma store_rep:
  "\<forall>v h'. store t h = (v, h') \<longrightarrow>
      length h \<le> length h' \<and> take (length h) h' = h \<and> rep h' {length h..<length h'} v t"
  and store_list_rep: "\<forall>vs h'. store_list ts h1 = (vs, h') \<longrightarrow>
      length h1 \<le> length h' \<and> take (length h1) h' = h1 \<and> rep_list h' {length h1..<length h'} vs ts"
  and store_items_rep: "\<forall>kvs h'. store_items kts h2 = (kvs, h') \<longrightarrow>
      length h2 \<le> length h' \<and> take (length h2) h' = h2 \<and> rep_items h' {length h2..<length h'} kvs kts"
proof (induction t h and ts h1 and kts h2 rule: store_store_list_store_items.induct)
  case (5 ts h)
  show ?case
  proof (intro allI impI)
    fix v h' assume s: "store (TList ts) h = (v, h')"
    obtain vs h1 where sl: "store_list ts h = (vs, h1)" by (cases "store_list ts h")
    with s have v: "v = Ref (length h1)" and h': "h' = h1 @ [PyList vs]" by auto
    from 5 sl have len: "length h \<le> length h1" and tk: "take (length h) h1 = h"
      and rl: "rep_list h1 {length h..<length h1} vs ts" by auto
    have "rep_list h' {length h..<length h1} vs ts"
      unfolding h' by (intro rep_list_frame[OF rl]) (auto simp: nth_append)
    then have "rep h' (insert (length h1) {length h..<length h1}) v (TList ts)"
      unfolding v by (intro rep_List) (auto simp: h')
    moreover have "insert (length h1) {length h..<length h1} = {length h..<length h'}"
      using len by (auto simp: h')
    ultimately show "length h \<le> length h' \<and> take (length h) h' = h \<and> rep h' {length h..<length h'} v (TList ts)"
      using len tk by (simp add: h')
  qed
next
  case (6 kd kts h)
  show ?case
  proof (intro allI impI)
    fix v h' assume s: "store (TDict kd kts) h = (v, h')"
    obtain kvs h1 where sl: "store_items kts h = (kvs, h1)" by (cases "store_items kts h")
    with s have v: "v = Ref (length h1)" and h': "h' = h1 @ [Dict kd kvs]" by auto
    from 6 sl have len: "length h \<le> length h1" and tk: "take (length h) h1 = h"
      and rl: "rep_items h1 {length h..<length h1} kvs kts" by auto
    have "rep_items h' {length h..<length h1} kvs kts"
      unfolding h' by (intro rep_items_frame[OF rl]) (auto simp: nth_append)
    then have "rep h' (insert (length h1) {length h..<length h1}) v (TDict kd kts)"
      unfolding v by (intro rep_Dict) (auto simp: h')
    moreover have "insert (length h1) {length h..<length h1} = {length h..<length h'}"
      using len by (auto simp: h')
    ultimately show "length h \<le> length h' \<and> take (length h) h' = h \<and> rep h' {length h..<length h'} v (TDict kd kts)"
      using len tk by (simp add: h')
  qed
next
  case (8 t ts h)
  show ?case
  proof (intro allI impI)
    fix vs h' assume s: "store_list (t # ts) h = (vs, h')"
    obtain v h1 where s1: "store t h = (v, h1)" by (cases "store t h")
    obtain vs' h2 where s2: "store_list ts h1 = (vs', h2)" by (cases "store_list ts h1")
    from s s1 s2 have vs: "vs = v # vs'" and h': "h' = h2" by auto
    from 8(1) s1 have len1: "length h \<le> length h1" and tk1: "take (length h) h1 = h"
      and r1: "rep h1 {length h..<length h1} v t" by auto
    from 8(2)[OF s1[symmetric]] s2 have len2: "length h1 \<le> length h2" and tk2: "take (length h1) h2 = h1"
      and r2: "rep_list h2 {length h1..<length h2} vs' ts" by auto
    have "rep h2 {length h..<length h1} v t"
      using tk2 by (intro rep_frame[OF r1 len2]) (auto intro: take_nth)
    then have "rep_list h2 ({length h..<length h1} \<union> {length h1..<length h2}) (v # vs') (t # ts)"
      using r2 by (rule rep_Cons) auto
    moreover have "{length h..<length h1} \<union> {length h1..<length h2} = {length h..<length h2}"
      using len1 len2 by auto
    moreover have "take (length h) h2 = h"
      using tk1 tk2 len1 by (metis min.absorb1 take_take)
    ultimately show "length h \<le> length h' \<and> take (length h) h' = h \<and> rep_list h' {length h..<length h'} vs (t # ts)"
      using len1 len2 vs h' by simp
  qed
next
  case (10 k t kts h)
  show ?case
  proof (intro allI impI)
    fix kvs h' assume s: "store_items ((k, t) # kts) h = (kvs, h')"
    obtain v h1 where s1: "store t h = (v, h1)" by (cases "store t h")
    obtain kvs' h2 where s2: "store_items kts h1 = (kvs', h2)" by (cases "store_items kts h1")
    from s s1 s2 have vs: "kvs = (k, v) # kvs'" and h': "h' = h2" by auto
    from 10(1) s1 have len1: "length h \<le> length h1" and tk1: "take (length h) h1 = h"
      and r1: "rep h1 {length h..<length h1} v t" by auto
    from 10(2)[OF s1[symmetric]] s2 have len2: "length h1 \<le> length h2" and tk2: "take (length h1) h2 = h1"
      and r2: "rep_items h2 {length h1..<length h2} kvs' kts" by auto
    have "rep h2 {length h..<length h1} v t"
      using tk2 by (intro rep_frame[OF r1 len2]) (auto intro: take_nth)
    then have "rep_items h2 ({length h..<length h1} \<union> {length h1..<length h2}) ((k, v) # kvs') ((k, t) # kts)"
      using r2 by (rule rep_items_Cons) auto
    moreover have "{length h..<length h1} \<union> {length h1..<length h2} = {length h..<length h2}"
      using len1 len2 by auto
    moreover have "take (length h) h2 = h"
      using tk1 tk2 len1 by (metis min.absorb1 take_take)
    ultimately show "length h \<le> length h' \<and> take (length h) h' = h \<and> rep_items h' {length h..<length h'} kvs ((k, t) # kts)"
      using len1 len2 vs h' by simp
  qed
qed (auto intro: rep_rep_list_rep_items.intros)

lemma those_map_list:
  "list_all2 (\<lambda>v t. f v = Some t) vs ts \<Longrightarrow> those (map f vs) = Some ts"
  by (induction rule: list_all2_induct) auto

lemma those_map_items:
  "list_all2 (\<lambda>kv kt. fst kv = fst kt \<and> f (snd kv) = Some (snd kt)) kvs kts \<Longrightarrow>
   those (map (\<lambda>(k, v). map_option (Pair k) (f v)) kvs) = Some kts"
  by (induction rule: list_all2_induct) (auto simp: case_prod_beta)

lemma rep_tree_of_aux:
  "(rep h A v t \<longrightarrow> (\<exists>m. \<forall>m'\<ge>m. tree_of m' h v = Some t)) \<and>
   (rep_list h B vs ts \<longrightarrow> (\<exists>m. \<forall>m'\<ge>m. list_all2 (\<lambda>v t. tree_of m' h v = Some t) vs ts)) \<and>
   (rep_items h C kvs kts \<longrightarrow>
      (\<exists>m. \<forall>m'\<ge>m. list_all2 (\<lambda>kv kt. fst kv = fst kt \<and> tree_of m' h (snd kv) = Some (snd kt)) kvs kts))"
proof (induction rule: rep_rep_list_rep_items.induct)
  case (rep_List a vs A ts)
  then obtain m where m: "\<forall>m'\<ge>m. list_all2 (\<lambda>v t. tree_of m' h v = Some t) vs ts" by blast
  have "tree_of m' h (Ref a) = Some (TList ts)" if "m' \<ge> Suc m" for m'
  proof -
    from that obtain m'' where m'': "m' = Suc m''" "m'' \<ge> m" by (cases m') auto
    then have "those (map (tree_of m'' h) vs) = Some ts" using m by (intro those_map_list) simp
    then show ?thesis using rep_List(1,2) m''(1) by (simp add: obj_at_def)
  qed
  then show ?case by blast
next
  case (rep_Dict a kd kvs A kts)
  then obtain m where m: "\<forall>m'\<ge>m. list_all2 (\<lambda>kv kt. fst kv = fst kt \<and> tree_of m' h (snd kv) = Some (snd kt)) kvs kts"
    by blast
  have "tree_of m' h (Ref a) = Some (TDict kd kts)" if "m' \<ge> Suc m" for m'
  proof -
    from that obtain m'' where m'': "m' = Suc m''" "m'' \<ge> m" by (cases m') auto
    then have "those (map (\<lambda>(k, v). map_option (Pair k) (tree_of m'' h v)) kvs) = Some kts"
      using m by (intro those_map_items) simp
    then show ?thesis using rep_Dict(1,2) m''(1) by (simp add: obj_at_def)
  qed
  then show ?case by blast
next
  case (rep_Cons A v t B vs ts)
  then obtain m1 m2 where m1: "\<forall>m'\<ge>m1. tree_of m' h v = Some t"
    and m2: "\<forall>m'\<ge>m2. list_all2 (\<lambda>v t. tree_of m' h v = Some t) vs ts" by blast
  then have "\<forall>m'\<ge>max m1 m2. list_all2 (\<lambda>v t. tree_of m' h v = Some t) (v # vs) (t # ts)"
    by simp
  then show ?case by blast
next
  case (rep_items_Cons A v t B kvs kts k)
  then obtain m1 m2 where m1: "\<forall>m'\<ge>m1. tree_of m' h v = Some t"
    and m2: "\<forall>m'\<ge>m2. list_all2 (\<lambda>kv kt. fst kv = fst kt \<and> tree_of m' h (snd kv) = Some (snd kt)) kvs kts"
    by blast
  then have "\<forall>m'\<ge>max m1 m2. list_all2 (\<lambda>kv kt. fst kv = fst kt \<and> tree_of m' h (snd kv) = Some (snd kt))
      ((k, v) # kvs) ((k, t) # kts)"
    by simp
  then show ?case by blast
qed auto

lemma rep_tree_of: "rep h A v t \<Longrightarrow> \<exists>m. tree_of m h v = Some t"
  using rep_tree_of_aux by blast

text \<open>The code, run on parsed layers, computes \<open>tree_merge\<close>.\<close>

lemma merge_on_trees:
  assumes st: "store_list ts h0 = (ds, h)"
  shows "case tree_merge n ts of
           Inl e \<Rightarrow> merge_ordered_dicts n h ds = Inl e
         | Inr t' \<Rightarrow> \<exists>h' m. merge_ordered_dicts n h ds = Inr (length h, h') \<and>
               tree_of m h' (Ref (length h)) = Some t'"
proof -
  from store_list_rep st have rl: "rep_list h {length h0..<length h} ds ts" by blast
  show ?thesis
  proof (cases "tree_merge n ts")
    case (Inl e)
    then show ?thesis using refinesD_Inl[OF merge_refines rl] by simp
  next
    case (Inr t')
    from refinesD_Inr[OF merge_refines rl Inr] obtain h' A' where
      "merge_ordered_dicts n h ds = Inr (length h, h')" "rep h' A' (Ref (length h)) t'"
      by blast
    then show ?thesis using Inr rep_tree_of by fastforce
  qed
qed

section \<open>The merge on trees, key by key\<close>

lemma tree_add_items_append:
  "tree_add_items rec T (kvs @ kvs') =
     (case tree_add_items rec T kvs of Inl e \<Rightarrow> Inl e | Inr T1 \<Rightarrow> tree_add_items rec T1 kvs')"
  by (induction kvs arbitrary: T) (auto split: sum.splits)

lemma tree_add_entry_other_key:
  "tree_add_entry rec T k' v = Inr T' \<Longrightarrow> k \<noteq> k' \<Longrightarrow> map_of T' k = map_of T k"
  by (auto simp: tree_add_entry_def update_conv'
      split: option.splits tree.splits dict_kind.splits list.splits if_splits sum.splits)

lemma tree_add_items_other_keys:
  "tree_add_items rec T kvs = Inr T' \<Longrightarrow> k \<notin> fst ` set kvs \<Longrightarrow> map_of T' k = map_of T k"
proof (induction kvs arbitrary: T)
  case Nil
  then show ?case by simp
next
  case (Cons kv kvs)
  obtain k' v where kv: "kv = (k', v)" by (cases kv)
  with Cons.prems obtain T1 where 1: "tree_add_entry rec T k' v = Inr T1"
    and 2: "tree_add_items rec T1 kvs = Inr T'"
    by (auto split: sum.splits)
  from Cons.prems(2) kv have "k \<noteq> k'" "k \<notin> fst ` set kvs" by auto
  then show ?case using Cons.IH[OF 2] tree_add_entry_other_key[OF 1] by simp
qed

lemma tree_add_entry_new_key:
  "map_of T k = None \<Longrightarrow> tree_add_entry rec T k v = Inr (AList.update k v T)"
  by (simp add: tree_add_entry_def)

lemma tree_add_items_copy:
  "distinct (map fst (acc @ kvs)) \<Longrightarrow> tree_add_items rec acc kvs = Inr (acc @ kvs)"
proof (induction kvs arbitrary: acc)
  case Nil
  then show ?case by simp
next
  case (Cons kv kvs)
  obtain k v where kv: "kv = (k, v)" by (cases kv)
  from Cons.prems kv have fresh: "k \<notin> fst ` set acc" by auto
  then have "map_of acc k = None" by (simp add: map_of_eq_None_iff)
  then have "tree_add_entry rec acc k v = Inr (acc @ [(k, v)])"
    using fresh by (simp add: tree_add_entry_new_key update_fresh_key)
  moreover from Cons.prems kv have "distinct (map fst ((acc @ [(k, v)]) @ kvs))" by simp
  from Cons.IH[OF this] have "tree_add_items rec (acc @ [(k, v)]) kvs = Inr (acc @ kv # kvs)"
    using kv by simp
  ultimately show ?case using kv by simp
qed




text \<open>Accepted layers merge without an exception.\<close>

lemma tree_add_entry_ok:
  assumes rec: "\<And>x v. rec_ok x v \<Longrightarrow> \<exists>t. rec [x, v] = Inr t"
    and ok: "entry_ok rec_ok (map_of T k) v"
  shows "\<exists>T'. tree_add_entry rec T k v = Inr T'"
proof (cases "map_of T k")
  case None
  then show ?thesis by (simp add: tree_add_entry_new_key)
next
  case (Some x)
  show ?thesis
  proof (cases v)
    case (TList ys)
    then show ?thesis using ok Some
      by (cases ys) (auto simp: entry_ok_def tree_add_entry_def split: tree.splits)
  next
    case (TDict kd kts)
    show ?thesis
    proof (cases "kd = Ordered \<and> map_of kts reset_token = None")
      case True
      with ok Some TDict have "rec_ok x v" by (auto simp: entry_ok_def)
      from rec[OF this] obtain t where "rec [x, v] = Inr t" ..
      then show ?thesis using True Some TDict by (simp add: tree_add_entry_def)
    next
      case False
      then show ?thesis using Some TDict
        by (cases kd) (auto simp: tree_add_entry_def)
    qed
  qed (simp_all add: tree_add_entry_def Some)
qed

lemma tree_add_items_ok:
  assumes rec: "\<And>x v. rec_ok x v \<Longrightarrow> \<exists>t. rec [x, v] = Inr t"
  shows "distinct (map fst kvs) \<Longrightarrow> \<forall>(k, v)\<in>set kvs. entry_ok rec_ok (map_of T k) v \<Longrightarrow>
         \<exists>T'. tree_add_items rec T kvs = Inr T'"
proof (induction kvs arbitrary: T)
  case Nil
  then show ?case by simp
next
  case (Cons kv kvs)
  obtain k v where kv: "kv = (k, v)" by (cases kv)
  from Cons.prems(2) kv have "entry_ok rec_ok (map_of T k) v" by simp
  have "\<exists>T'. tree_add_entry rec T k v = Inr T'"
    by (rule tree_add_entry_ok[where rec_ok = rec_ok]) (fact rec, fact)
  then obtain T1 where 1: "tree_add_entry rec T k v = Inr T1" by blast
  have "\<forall>(k', v')\<in>set kvs. entry_ok rec_ok (map_of T1 k') v'"
  proof (clarify)
    fix k' v' assume in': "(k', v') \<in> set kvs"
    with Cons.prems(1) kv have "k' \<noteq> k" by force
    from tree_add_entry_other_key[OF 1 this] in' Cons.prems(2)
    show "entry_ok rec_ok (map_of T1 k') v'" by auto
  qed
  moreover from Cons.prems(1) have "distinct (map fst kvs)" by simp
  ultimately obtain T' where "tree_add_items rec T1 kvs = Inr T'" using Cons.IH by blast
  then show ?case using 1 kv by simp
qed

lemma layers_ok_returns:
  "layers_ok n e i \<Longrightarrow> \<exists>T. tree_merge n [e, i] = Inr (TDict Ordered T)"
proof (induction n arbitrary: e i)
  case 0
  then show ?case by simp
next
  case (Suc n)
  from Suc.prems obtain ke ekts ki ikts where e: "e = TDict ke ekts" and i: "i = TDict ki ikts"
    and de: "distinct (map fst ekts)" and di: "distinct (map fst ikts)"
    and all: "list_all (\<lambda>(k, v). entry_ok (layers_ok n) (map_of ekts k) v) ikts"
    by (auto split: tree.splits)
  have copy: "tree_add_items (tree_merge n) [] ekts = Inr ekts"
    using tree_add_items_copy[of "[]" ekts] de by simp
  have rec: "\<And>x v. layers_ok n x v \<Longrightarrow> \<exists>t. tree_merge n [x, v] = Inr t"
    using Suc.IH by blast
  from all have "\<forall>(k, v)\<in>set ikts. entry_ok (layers_ok n) (map_of ekts k) v"
    by (simp add: list_all_iff)
  then have "\<exists>T. tree_add_items (tree_merge n) ekts ikts = Inr T"
    by (intro tree_add_items_ok[where rec_ok = "layers_ok n"] rec di)
  then obtain T where "tree_add_items (tree_merge n) ekts ikts = Inr T" by blast
  then show ?case using copy e i by (simp add: tree_merge_body_def tree_items_def)
qed

text \<open>
  Two layers, at a key \<open>k\<close> of the incoming layer, when every other entry of the incoming
  layer is accepted: the merge raises what \<^verbatim>\<open>add_entry\<close> raises at \<open>k\<close>, and otherwise
  returns a result that holds at \<open>k\<close> what \<^verbatim>\<open>add_entry\<close> stored there.
\<close>

lemma tree_merge_at_key:
  assumes de: "distinct (map fst e)" and di: "distinct (map fst i)"
    and ik: "map_of i k = Some v"
    and ok: "\<forall>(k', v')\<in>set i. k' \<noteq> k \<longrightarrow> entry_ok (layers_ok n) (map_of e k') v'"
  shows "\<exists>T1. map_of T1 k = map_of e k \<and>
     (case tree_add_entry (tree_merge n) T1 k v of
        Inl err \<Rightarrow> tree_merge (Suc n) [TDict ke e, TDict ki i] = Inl err
      | Inr T2 \<Rightarrow> \<exists>T. tree_merge (Suc n) [TDict ke e, TDict ki i] = Inr (TDict Ordered T) \<and>
                    map_of T k = map_of T2 k)"
proof -
  let ?rec = "tree_merge n"
  have rec: "\<And>x v. layers_ok n x v \<Longrightarrow> \<exists>t. tree_merge n [x, v] = Inr t"
    using layers_ok_returns by blast
  have copy: "tree_add_items ?rec [] e = Inr e"
    using tree_add_items_copy[of "[]" e] de by simp
  have tm: "tree_merge (Suc n) [TDict ke e, TDict ki i] =
      (case tree_add_items ?rec e i of Inl err \<Rightarrow> Inl err | Inr T \<Rightarrow> Inr (TDict Ordered T))"
    using copy by (simp add: tree_merge_body_def tree_items_def split: sum.splits)
  from ik have "(k, v) \<in> set i" by (rule map_of_SomeD)
  then obtain pre post where i: "i = pre @ (k, v) # post" by (auto dest: split_list)
  from di have d3: "distinct (map fst pre @ k # map fst post)" by (simp add: i)
  from d3 have kpre: "k \<notin> fst ` set pre" by simp
  from d3 have kpost: "k \<notin> fst ` set post" by simp
  from d3 have dpre: "distinct (map fst pre)" by simp
  from d3 have dpost: "distinct (map fst post)" by simp
  from d3 have disj: "fst ` set pre \<inter> fst ` set post = {}" by auto
  have okpre: "\<forall>(k', v')\<in>set pre. entry_ok (layers_ok n) (map_of e k') v'"
  proof clarify
    fix k' v' assume in': "(k', v') \<in> set pre"
    then have "k' \<in> fst ` set pre" by (rule image_eqI[rotated]) simp
    with kpre have "k' \<noteq> k" by blast
    moreover from in' have "(k', v') \<in> set i" by (simp add: i)
    ultimately show "entry_ok (layers_ok n) (map_of e k') v'" using ok by blast
  qed
  have "\<exists>T1. tree_add_items ?rec e pre = Inr T1"
    by (intro tree_add_items_ok[where rec_ok = "layers_ok n"] rec dpre okpre)
  then obtain T1 where 1: "tree_add_items ?rec e pre = Inr T1" by blast
  have T1k: "map_of T1 k = map_of e k" using tree_add_items_other_keys[OF 1 kpre] .
  have split: "tree_add_items ?rec e i =
      (case tree_add_entry ?rec T1 k v of Inl err \<Rightarrow> Inl err
       | Inr T2 \<Rightarrow> tree_add_items ?rec T2 post)"
    using 1 by (simp add: i tree_add_items_append)
  show ?thesis
  proof (cases "tree_add_entry ?rec T1 k v")
    case (Inl err)
    then show ?thesis using T1k tm split by (intro exI[of _ T1]) simp
  next
    case (Inr T2)
    have okpost: "\<forall>(k', v')\<in>set post. entry_ok (layers_ok n) (map_of T2 k') v'"
    proof clarify
      fix k' v' assume in': "(k', v') \<in> set post"
      then have kin: "k' \<in> fst ` set post" by (rule image_eqI[rotated]) simp
      have k': "k' \<noteq> k" "k' \<notin> fst ` set pre" using kin kpost disj by blast+
      from in' have ini: "(k', v') \<in> set i" by (simp add: i)
      have "map_of T2 k' = map_of T1 k'" using tree_add_entry_other_key[OF Inr] k' by simp
      also have "\<dots> = map_of e k'" using tree_add_items_other_keys[OF 1 k'(2)] .
      finally show "entry_ok (layers_ok n) (map_of T2 k') v'" using ok ini k'(1) by auto
    qed
    have "\<exists>T. tree_add_items ?rec T2 post = Inr T"
      by (intro tree_add_items_ok[where rec_ok = "layers_ok n"] rec dpost okpost)
    then obtain T where 3: "tree_add_items ?rec T2 post = Inr T" by blast
    have "map_of T k = map_of T2 k" using tree_add_items_other_keys[OF 3 kpost] .
    then show ?thesis using T1k tm split Inr 3 by (intro exI[of _ T1]) simp
  qed
qed

lemma merge_at_key:
  assumes st: "store_list [TDict ke e, TDict ki i] h0 = (ds, h)"
    and de: "distinct (map fst e)" and di: "distinct (map fst i)"
    and ik: "map_of i k = Some v"
    and ok: "\<forall>(k', v')\<in>set i. k' \<noteq> k \<longrightarrow> entry_ok (layers_ok n) (map_of e k') v'"
  shows "\<exists>T1. map_of T1 k = map_of e k \<and>
     (case tree_add_entry (tree_merge n) T1 k v of
        Inl err \<Rightarrow> merge_ordered_dicts (Suc n) h ds = Inl err
      | Inr T2 \<Rightarrow> \<exists>h' m T. merge_ordered_dicts (Suc n) h ds = Inr (length h, h') \<and>
                    tree_of m h' (Ref (length h)) = Some (TDict Ordered T) \<and>
                    map_of T k = map_of T2 k)"
proof -
  from tree_merge_at_key[OF de di ik ok, of ke ki] obtain T1 where
    T1: "map_of T1 k = map_of e k"
    and c: "case tree_add_entry (tree_merge n) T1 k v of
        Inl err \<Rightarrow> tree_merge (Suc n) [TDict ke e, TDict ki i] = Inl err
      | Inr T2 \<Rightarrow> \<exists>T. tree_merge (Suc n) [TDict ke e, TDict ki i] = Inr (TDict Ordered T) \<and>
                    map_of T k = map_of T2 k" by blast
  note mt = merge_on_trees[OF st, of "Suc n"]
  show ?thesis
  proof (cases "tree_add_entry (tree_merge n) T1 k v")
    case (Inl err)
    with c have "tree_merge (Suc n) [TDict ke e, TDict ki i] = Inl err" by simp
    with mt have "merge_ordered_dicts (Suc n) h ds = Inl err" by simp
    then show ?thesis using T1 Inl by (intro exI[of _ T1]) simp
  next
    case (Inr T2)
    with c obtain T where t: "tree_merge (Suc n) [TDict ke e, TDict ki i] = Inr (TDict Ordered T)"
      and k: "map_of T k = map_of T2 k" by auto
    from mt t obtain h' m where "merge_ordered_dicts (Suc n) h ds = Inr (length h, h')"
      "tree_of m h' (Ref (length h)) = Some (TDict Ordered T)" by auto
    then show ?thesis using T1 Inr k
      by (intro exI[of _ T1]) (simp, intro exI[of _ h'] exI[of _ m] exI[of _ T], simp)
  qed
qed

lemma layers_ok_others:
  assumes "layers_ok (Suc n) (TDict ke e) (TDict ki (AList.delete k i))"
  shows "distinct (map fst e)"
    and "\<forall>(k', v')\<in>set i. k' \<noteq> k \<longrightarrow> entry_ok (layers_ok n) (map_of e k') v'"
  using assms by (auto simp: list_all_iff AList.delete_eq)

lemma layers_ok_all:
  assumes "layers_ok (Suc n) (TDict ke e) (TDict ki i)"
  shows "distinct (map fst e)" and "distinct (map fst i)"
    and "\<forall>(k', v')\<in>set i. entry_ok (layers_ok n) (map_of e k') v'"
  using assms by (auto simp: list_all_iff)

lemma merge_fold_refines:
  "rep_acc h A acc tacc \<Longrightarrow> rep_list h C ds tds \<Longrightarrow> A \<inter> C = {} \<Longrightarrow>
   (case tree_merge_fold n tacc tds of
      Inl e \<Rightarrow> merge_fold n h acc ds = Inl e
    | Inr tres \<Rightarrow> \<exists>res h' A'. merge_fold n h acc ds = Inr (res, h') \<and> rep_acc h' A' res tres)"
proof (induction ds arbitrary: h A acc tacc C tds)
  case Nil
  then have "tds = []" by (auto elim: rep_list_NilE)
  then show ?case using Nil.prems(1) by auto
next
  case (Cons d ds)
  from Cons.prems(2) obtain td C1 C2 tds' where
    tds: "tds = td # tds'" and Cs: "C = C1 \<union> C2"
    and rd: "rep h C1 d td" and rs: "rep_list h C2 ds tds'" and dj: "C1 \<inter> C2 = {}"
    by (auto elim!: rep_list_ConsE)
  let ?args = "case acc of None \<Rightarrow> [d] | Some a \<Rightarrow> [a, d]"
  let ?targs = "case tacc of None \<Rightarrow> [td] | Some a \<Rightarrow> [a, td]"
  have rd1: "rep_list h (C1 \<union> {}) [d] [td]" using rd by (intro rep_Cons rep_Nil) auto
  have ra: "rep_list h (A \<union> C1) ?args ?targs"
  proof (cases acc)
    case None
    with Cons.prems(1) have "tacc = None" "A = {}"
      by (auto simp: rep_acc_def split: option.splits)
    then show ?thesis using None rd1 by simp
  next
    case (Some a)
    with Cons.prems(1) obtain ta where "tacc = Some ta" "rep h A a ta"
      by (auto simp: rep_acc_def split: option.splits)
    moreover have "A \<inter> (C1 \<union> {}) = {}" using Cons.prems(3) Cs by auto
    ultimately show ?thesis using Some rd1 by (auto intro: rep_Cons)
  qed
  have mf: "merge_fold n h acc (d # ds) =
      (case merge_ordered_dicts n h ?args of Inl e \<Rightarrow> Inl e
       | Inr (r, h') \<Rightarrow> merge_fold n h' (Some (Ref r)) ds)"
    by (simp add: merge_binary_def)
  have tf: "tree_merge_fold n tacc tds =
      (case tree_merge n ?targs of Inl e \<Rightarrow> Inl e
       | Inr r \<Rightarrow> tree_merge_fold n (Some r) tds')"
    using tds by simp
  show ?case
  proof (cases "tree_merge n ?targs")
    case (Inl e)
    from refinesD_Inl[OF merge_refines ra Inl] show ?thesis using mf tf Inl by simp
  next
    case (Inr t1)
    from refinesD_Inr[OF merge_refines ra Inr] obtain h1 A1 where
      m1: "merge_ordered_dicts n h ?args = Inr (length h, h1)" and len: "length h < length h1"
      and A1: "A1 \<subseteq> A \<union> C1 \<union> {length h..<length h1}"
      and r1: "rep h1 A1 (Ref (length h)) t1"
      and fr: "\<forall>a<length h. a \<notin> A \<union> C1 \<longrightarrow> h1 ! a = h ! a"
      by blast
    have C2b: "\<forall>a\<in>C2. a < length h" using rep_bound rs by blast
    have rs1: "rep_list h1 C2 ds tds'"
    proof (intro rep_list_frame[OF rs] ballI)
      fix a assume "a \<in> C2"
      then have "a < length h" "a \<notin> A \<union> C1" using C2b Cons.prems(3) Cs dj by auto
      then show "h1 ! a = h ! a" using fr by simp
    qed (use len in simp)
    have dj1: "A1 \<inter> C2 = {}"
    proof (rule ccontr)
      assume "A1 \<inter> C2 \<noteq> {}"
      then obtain a where a: "a \<in> A1" "a \<in> C2" by auto
      then have "a < length h" "a \<notin> A" "a \<notin> C1" using C2b Cons.prems(3) Cs dj by auto
      with a(1) A1 show False by auto
    qed
    have "rep_acc h1 A1 (Some (Ref (length h))) (Some t1)" using r1 by (simp add: rep_acc_def)
    note ih = Cons.IH[OF this rs1 dj1]
    have eq1: "merge_fold n h acc (d # ds) = merge_fold n h1 (Some (Ref (length h))) ds"
      using mf m1 by simp
    have eq2: "tree_merge_fold n tacc tds = tree_merge_fold n (Some t1) tds'"
      using tf Inr by simp
    show ?thesis using ih by (simp only: eq1 eq2)
  qed
qed

lemma tree_add_entry_distinct:
  "tree_add_entry rec T k v = Inr T' \<Longrightarrow> distinct (map fst T) \<Longrightarrow> distinct (map fst T')"
  by (auto simp: tree_add_entry_def distinct_update
      split: option.splits tree.splits dict_kind.splits list.splits if_splits sum.splits)

lemma tree_add_items_distinct:
  "tree_add_items rec T kvs = Inr T' \<Longrightarrow> distinct (map fst T) \<Longrightarrow> distinct (map fst T')"
proof (induction kvs arbitrary: T)
  case Nil
  then show ?case by simp
next
  case (Cons kv kvs)
  obtain k v where kv: "kv = (k, v)" by (cases kv)
  with Cons.prems obtain T1 where 1: "tree_add_entry rec T k v = Inr T1"
    and 2: "tree_add_items rec T1 kvs = Inr T'"
    by (auto split: sum.splits)
  from tree_add_entry_distinct[OF 1 Cons.prems(2)] Cons.IH[OF 2] show ?case by simp
qed

lemma tree_merge_fold_Some:
  "distinct (map fst T) \<Longrightarrow>
   tree_merge_fold (Suc n) (Some (TDict Ordered T)) ds =
     (case tree_add_dicts (tree_merge n) T ds of
        Inl e \<Rightarrow> Inl e
      | Inr T' \<Rightarrow> Inr (Some (TDict Ordered T')))"
proof (induction ds arbitrary: T)
  case Nil
  then show ?case by simp
next
  case (Cons d ds)
  have copy: "tree_add_items (tree_merge n) [] T = Inr T"
    using tree_add_items_copy[of "[]" T] Cons.prems by simp
  show ?case
  proof (cases "tree_items d")
    case (Inl e)
    then show ?thesis using copy by (simp add: tree_merge_body_def tree_items_def)
  next
    case (Inr kvs)
    show ?thesis
    proof (cases "tree_add_items (tree_merge n) T kvs")
      case Inl2: (Inl e)
      then show ?thesis using copy Inr by (simp add: tree_merge_body_def tree_items_def)
    next
      case Inr2: (Inr T1)
      then have "distinct (map fst T1)" using Cons.prems by (rule tree_add_items_distinct)
      from Cons.IH[OF this] show ?thesis
        using copy Inr Inr2 by (simp add: tree_merge_body_def tree_items_def)
    qed
  qed
qed

lemma tree_merge_fold_eq:
  "tree_merge_fold n None (d # ds) =
     (case tree_merge n (d # ds) of Inl e \<Rightarrow> Inl e | Inr t \<Rightarrow> Inr (Some t))"
proof (cases n)
  case 0
  then show ?thesis by simp
next
  case (Suc n')
  show ?thesis
  proof (cases "tree_items d")
    case (Inl e)
    then show ?thesis using Suc by (simp add: tree_merge_body_def)
  next
    case (Inr kvs)
    show ?thesis
    proof (cases "tree_add_items (tree_merge n') [] kvs")
      case Inl2: (Inl e)
      then show ?thesis using Suc Inr by (simp add: tree_merge_body_def)
    next
      case Inr2: (Inr T1)
      then have "distinct (map fst T1)" by (rule tree_add_items_distinct) simp
      from tree_merge_fold_Some[OF this, of n' ds] show ?thesis
        using Suc Inr Inr2 by (simp add: tree_merge_body_def split: sum.splits)
    qed
  qed
qed


section \<open>The claims\<close>

text \<open>
  C3 (an empty incoming sequence at a key the existing tree holds must be treated as
  "no reset" and leave the existing sequence unchanged).  The code has no guard:
  \<^verbatim>\<open>v[0] == '!reset!'\<close> is evaluated on the empty list and the merge ends in
  \<^verbatim>\<open>IndexError\<close>.  The theorem runs \<^verbatim>\<open>_merge_ordered_dicts\<close> on the parsed trees
  \<^verbatim>\<open>{a: [1, 2]}\<close> and \<^verbatim>\<open>{a: []}\<close>.
\<close>

theorem merge_empty_incoming_sequence_raises:
  "store_list [TDict Ordered [(''a'', TList [TInt 1, TInt 2])],
               TDict Ordered [(''a'', TList [])]] []
     = ([Ref 1, Ref 3],
        [PyList [PInt 1, PInt 2], Dict Ordered [(''a'', Ref 0)],
         PyList [], Dict Ordered [(''a'', Ref 2)]])
   \<and> merge_ordered_dicts 2
        [PyList [PInt 1, PInt 2], Dict Ordered [(''a'', Ref 0)],
         PyList [], Dict Ordered [(''a'', Ref 2)]]
        [Ref 1, Ref 3]
     = Inl IndexError"
  by code_simp

text \<open>
  C4 (merging with an absent existing tree returns a tree equal to the incoming one and
  sharing no mutable state with it).  The first half holds, the second does not: the
  result is a new top-level dictionary, but its values are the very references of the
  incoming tree.  In the counterexample the incoming tree is \<^verbatim>\<open>{a: {x: 1}}\<close>; the result
  holds at \<^verbatim>\<open>a\<close> the same object (address 0) as the incoming tree, and
  \<^verbatim>\<open>result['a']['x'] = 2\<close> changes what the incoming tree reads as.
\<close>

theorem merge_absent_existing_shares_subtrees:
  "store (TDict Ordered [(''a'', TDict Ordered [(''x'', TInt 1)])]) []
     = (Ref 1, [Dict Ordered [(''x'', PInt 1)], Dict Ordered [(''a'', Ref 0)]])
   \<and> merge_ordered_dicts 1 [Dict Ordered [(''x'', PInt 1)], Dict Ordered [(''a'', Ref 0)]] [Ref 1]
     = Inr (2, [Dict Ordered [(''x'', PInt 1)], Dict Ordered [(''a'', Ref 0)],
                Dict Ordered [(''a'', Ref 0)]])
   \<and> getitem [Dict Ordered [(''x'', PInt 1)], Dict Ordered [(''a'', Ref 0)],
               Dict Ordered [(''a'', Ref 0)]] (Ref 2) ''a'' = Inr (Ref 0)
   \<and> tree_of 2 (setitem [Dict Ordered [(''x'', PInt 1)], Dict Ordered [(''a'', Ref 0)],
                          Dict Ordered [(''a'', Ref 0)]] 0 ''x'' (PInt 2)) (Ref 1)
     = Some (TDict Ordered [(''a'', TDict Ordered [(''x'', TInt 2)])])"
  by code_simp

text \<open>
  C4, amended: merging a dictionary with an absent existing tree (the list of layers
  holds the incoming tree only) returns a new \<^verbatim>\<open>OrderedDict\<close> at a fresh address, with
  the keys of the incoming tree in the same order, bound to the same values; nothing of
  the store is changed.  Nested lists and dictionaries are shared, not copied.
\<close>

theorem merge_absent_existing_shallow_copy:
  assumes "dict_items h d = Some kvs" and "distinct (map fst kvs)"
  shows "merge_ordered_dicts (Suc n) h [d] = Inr (length h, h @ [Dict Ordered kvs])"
proof -
  have "py_items (h @ [Dict Ordered []]) d = Inr kvs"
    using assms(1) by (simp add: py_items_def dict_items_append)
  moreover have "add_items (merge_ordered_dicts n) (h @ [Dict Ordered []]) (length h) kvs
      = Inr (h @ [Dict Ordered kvs])"
    using add_items_copy[of "[]" kvs] assms(2) by simp
  ultimately show ?thesis by (simp add: merge_body_def alloc_def)
qed

theorem merge_absent_existing_shallow_copy_witness:
  "dict_items [Dict Ordered [(''x'', PInt 1)], Dict Ordered [(''a'', Ref 0)]] (Ref 1)
     = Some [(''a'', Ref 0)]
   \<and> merge_ordered_dicts 1 [Dict Ordered [(''x'', PInt 1)], Dict Ordered [(''a'', Ref 0)]] [Ref 1]
     = Inr (2, [Dict Ordered [(''x'', PInt 1)], Dict Ordered [(''a'', Ref 0)],
                Dict Ordered [(''a'', Ref 0)]])"
  using merge_absent_existing_shallow_copy
    [of "[Dict Ordered [(''x'', PInt 1)], Dict Ordered [(''a'', Ref 0)]]" "Ref 1"
        "[(''a'', Ref 0)]" 0]
  by (simp add: dict_items_def obj_at_def)




text \<open>
  C1 (two layers that both hold a sequence at the same key).  The layers \<open>e\<close> (existing)
  and \<open>i\<close> (incoming) are parsed into the store and merged by \<^verbatim>\<open>_merge_ordered_dicts\<close>;
  every other entry of the incoming layer is one that merges without an exception.  When
  the incoming sequence is not empty the merge returns, and the result holds at the key:
  the incoming sequence without its first element when that element is the reset token;
  otherwise the existing sequence followed by the whole incoming sequence, so a reset
  token after the first position stays in the data.  When the incoming sequence is
  empty, which the claim counts as "no reset", the merge raises \<^verbatim>\<open>IndexError\<close> instead of
  keeping the existing sequence: \<^verbatim>\<open>v[0]\<close> is evaluated without a guard.
\<close>

theorem merge_sequences_at_same_key:
  assumes st: "store_list [TDict ke e, TDict ki i] h0 = (ds, h)"
    and di: "distinct (map fst i)"
    and ok: "layers_ok (Suc n) (TDict ke e) (TDict ki (AList.delete k i))"
    and ek: "map_of e k = Some (TList xs)" and ik: "map_of i k = Some (TList ys)"
  shows "if ys = [] then merge_ordered_dicts (Suc n) h ds = Inl IndexError
         else (\<exists>r h' m T. merge_ordered_dicts (Suc n) h ds = Inr (r, h') \<and>
                 tree_of m h' (Ref r) = Some (TDict Ordered T) \<and>
                 map_of T k = Some (TList (if hd ys = TStr reset_token then tl ys else xs @ ys)))"
proof -
  note o = layers_ok_others[OF ok]
  from merge_at_key[OF st o(1) di ik o(2)] obtain T1 where
    T1: "map_of T1 k = Some (TList xs)"
    and c: "case tree_add_entry (tree_merge n) T1 k (TList ys) of
        Inl err \<Rightarrow> merge_ordered_dicts (Suc n) h ds = Inl err
      | Inr T2 \<Rightarrow> \<exists>h' m T. merge_ordered_dicts (Suc n) h ds = Inr (length h, h') \<and>
                    tree_of m h' (Ref (length h)) = Some (TDict Ordered T) \<and>
                    map_of T k = map_of T2 k"
    using ek by auto
  show ?thesis
  proof (cases ys)
    case Nil
    then have "tree_add_entry (tree_merge n) T1 k (TList ys) = Inl IndexError"
      using T1 by (simp add: tree_add_entry_def)
    with c Nil show ?thesis by simp
  next
    case (Cons y ys')
    let ?res = "TList (if hd ys = TStr reset_token then tl ys else xs @ ys)"
    have "tree_add_entry (tree_merge n) T1 k (TList ys) = Inr (AList.update k ?res T1)"
      using T1 Cons by (simp add: tree_add_entry_def)
    with c obtain h' m T where "merge_ordered_dicts (Suc n) h ds = Inr (length h, h')"
      "tree_of m h' (Ref (length h)) = Some (TDict Ordered T)"
      "map_of T k = Some ?res"
      by (auto simp: update_conv')
    then have "\<exists>r h' m T. merge_ordered_dicts (Suc n) h ds = Inr (r, h') \<and>
                 tree_of m h' (Ref r) = Some (TDict Ordered T) \<and> map_of T k = Some ?res"
      by (intro exI[of _ "length h"] exI[of _ h'] exI[of _ m] exI[of _ T]) simp
    then show ?thesis using Cons by simp
  qed
qed

text \<open>
  \<^verbatim>\<open>{a: [1, 2]}\<close> then \<^verbatim>\<open>{a: [3, "!reset!"]}\<close> gives \<^verbatim>\<open>{a: [1, 2, 3, "!reset!"]}\<close>;
  \<^verbatim>\<open>{a: [1, 2]}\<close> then \<^verbatim>\<open>{a: ["!reset!", 3]}\<close> gives \<^verbatim>\<open>{a: [3]}\<close>; \<^verbatim>\<open>{a: [1, 2]}\<close> then
  \<^verbatim>\<open>{a: []}\<close> raises.
\<close>

theorem merge_sequences_at_same_key_witness:
  "merge_ordered_dicts (Suc 0)
        [PyList [PInt 1, PInt 2], Dict Ordered [(''a'', Ref 0)],
         PyList [PInt 3, PStr ''!reset!''], Dict Ordered [(''a'', Ref 2)]] [Ref 1, Ref 3]
     = Inr (4, [PyList [PInt 1, PInt 2], Dict Ordered [(''a'', Ref 0)],
         PyList [PInt 3, PStr ''!reset!''], Dict Ordered [(''a'', Ref 2)],
         Dict Ordered [(''a'', Ref 5)], PyList [PInt 1, PInt 2, PInt 3, PStr ''!reset!'']])
   \<and> (\<exists>m T. tree_of m
        [PyList [PInt 1, PInt 2], Dict Ordered [(''a'', Ref 0)],
         PyList [PInt 3, PStr ''!reset!''], Dict Ordered [(''a'', Ref 2)],
         Dict Ordered [(''a'', Ref 5)], PyList [PInt 1, PInt 2, PInt 3, PStr ''!reset!'']] (Ref 4)
        = Some (TDict Ordered T) \<and>
      map_of T ''a'' = Some (TList [TInt 1, TInt 2, TInt 3, TStr ''!reset!'']))
   \<and> merge_ordered_dicts (Suc 0)
        [PyList [PInt 1, PInt 2], Dict Ordered [(''a'', Ref 0)],
         PyList [PStr ''!reset!'', PInt 3], Dict Ordered [(''a'', Ref 2)]] [Ref 1, Ref 3]
     = Inr (4, [PyList [PInt 1, PInt 2], Dict Ordered [(''a'', Ref 0)],
         PyList [PStr ''!reset!'', PInt 3], Dict Ordered [(''a'', Ref 2)],
         Dict Ordered [(''a'', Ref 5)], PyList [PInt 3]])
   \<and> (\<exists>m T. tree_of m
        [PyList [PInt 1, PInt 2], Dict Ordered [(''a'', Ref 0)],
         PyList [PStr ''!reset!'', PInt 3], Dict Ordered [(''a'', Ref 2)],
         Dict Ordered [(''a'', Ref 5)], PyList [PInt 3]] (Ref 4)
        = Some (TDict Ordered T) \<and>
      map_of T ''a'' = Some (TList [TInt 3]))
   \<and> merge_ordered_dicts (Suc 0)
        [PyList [PInt 1, PInt 2], Dict Ordered [(''a'', Ref 0)],
         PyList [], Dict Ordered [(''a'', Ref 2)]] [Ref 1, Ref 3]
     = Inl IndexError"
proof -
  have st1: "store_list [TDict Ordered [(''a'', TList [TInt 1, TInt 2])],
                         TDict Ordered [(''a'', TList [TInt 3, TStr ''!reset!''])]] []
      = ([Ref 1, Ref 3],
         [PyList [PInt 1, PInt 2], Dict Ordered [(''a'', Ref 0)],
          PyList [PInt 3, PStr ''!reset!''], Dict Ordered [(''a'', Ref 2)]])"
    by simp
  have mg1: "merge_ordered_dicts (Suc 0)
         [PyList [PInt 1, PInt 2], Dict Ordered [(''a'', Ref 0)],
          PyList [PInt 3, PStr ''!reset!''], Dict Ordered [(''a'', Ref 2)]] [Ref 1, Ref 3]
      = Inr (4, [PyList [PInt 1, PInt 2], Dict Ordered [(''a'', Ref 0)],
         PyList [PInt 3, PStr ''!reset!''], Dict Ordered [(''a'', Ref 2)],
         Dict Ordered [(''a'', Ref 5)], PyList [PInt 1, PInt 2, PInt 3, PStr ''!reset!'']])"
    by code_simp
  have st2: "store_list [TDict Ordered [(''a'', TList [TInt 1, TInt 2])],
                         TDict Ordered [(''a'', TList [TStr ''!reset!'', TInt 3])]] []
      = ([Ref 1, Ref 3],
         [PyList [PInt 1, PInt 2], Dict Ordered [(''a'', Ref 0)],
          PyList [PStr ''!reset!'', PInt 3], Dict Ordered [(''a'', Ref 2)]])"
    by simp
  have mg2: "merge_ordered_dicts (Suc 0)
         [PyList [PInt 1, PInt 2], Dict Ordered [(''a'', Ref 0)],
          PyList [PStr ''!reset!'', PInt 3], Dict Ordered [(''a'', Ref 2)]] [Ref 1, Ref 3]
      = Inr (4, [PyList [PInt 1, PInt 2], Dict Ordered [(''a'', Ref 0)],
         PyList [PStr ''!reset!'', PInt 3], Dict Ordered [(''a'', Ref 2)],
         Dict Ordered [(''a'', Ref 5)], PyList [PInt 3]])"
    by code_simp
  have st3: "store_list [TDict Ordered [(''a'', TList [TInt 1, TInt 2])],
                         TDict Ordered [(''a'', TList [])]] []
      = ([Ref 1, Ref 3],
         [PyList [PInt 1, PInt 2], Dict Ordered [(''a'', Ref 0)],
          PyList [], Dict Ordered [(''a'', Ref 2)]])"
    by simp
  have ok: "layers_ok (Suc 0) (TDict Ordered [(''a'', TList [TInt 1, TInt 2])])
              (TDict Ordered (AList.delete ''a'' [(''a'', ys)]))" for ys
    by simp
  have d: "distinct (map fst [(''a'', ys)])" for ys :: tree by simp
  have e: "map_of [(''a'', TList [TInt 1, TInt 2])] ''a'' = Some (TList [TInt 1, TInt 2])" by simp
  have i: "map_of [(''a'', TList ys)] ''a'' = Some (TList ys)" for ys by simp
  from merge_sequences_at_same_key[OF st1 d ok e i, unfolded mg1]
  have 1: "\<exists>m T. tree_of m
        [PyList [PInt 1, PInt 2], Dict Ordered [(''a'', Ref 0)],
         PyList [PInt 3, PStr ''!reset!''], Dict Ordered [(''a'', Ref 2)],
         Dict Ordered [(''a'', Ref 5)], PyList [PInt 1, PInt 2, PInt 3, PStr ''!reset!'']] (Ref 4)
        = Some (TDict Ordered T) \<and>
      map_of T ''a'' = Some (TList [TInt 1, TInt 2, TInt 3, TStr ''!reset!''])"
    by (simp add: reset_token_def)
  from merge_sequences_at_same_key[OF st2 d ok e i, unfolded mg2]
  have 2: "\<exists>m T. tree_of m
        [PyList [PInt 1, PInt 2], Dict Ordered [(''a'', Ref 0)],
         PyList [PStr ''!reset!'', PInt 3], Dict Ordered [(''a'', Ref 2)],
         Dict Ordered [(''a'', Ref 5)], PyList [PInt 3]] (Ref 4)
        = Some (TDict Ordered T) \<and>
      map_of T ''a'' = Some (TList [TInt 3])"
    by (simp add: reset_token_def)
  from merge_sequences_at_same_key[OF st3 d ok e i]
  have 3: "merge_ordered_dicts (Suc 0)
        [PyList [PInt 1, PInt 2], Dict Ordered [(''a'', Ref 0)],
         PyList [], Dict Ordered [(''a'', Ref 2)]] [Ref 1, Ref 3]
     = Inl IndexError"
    by (simp only: if_True)
  from mg1 1 mg2 2 3 show ?thesis by (intro conjI)
qed



text \<open>
  C6 (the merge of the whole list of layers equals the left fold of the binary merge).
  For every non-empty list of parsed layers: when the merge of the whole list raises, the
  fold raises the same error; when it returns, the fold returns as well, and the two
  results read as the same tree.  (The two runs allocate different addresses, so the
  results are compared as trees.)
\<close>

theorem merge_all_layers_eq_fold:
  assumes st: "store_list (t # ts) h0 = (ds, h)"
  shows "case merge_ordered_dicts n h ds of
           Inl e \<Rightarrow> merge_fold n h None ds = Inl e
         | Inr (r, h1) \<Rightarrow>
             \<exists>r' h2 m m' tr. merge_fold n h None ds = Inr (Some (Ref r'), h2) \<and>
                tree_of m h1 (Ref r) = Some tr \<and> tree_of m' h2 (Ref r') = Some tr"
proof -
  from store_list_rep st have rl: "rep_list h {length h0..<length h} ds (t # ts)" by blast
  have ra: "rep_acc h {} None None" by (simp add: rep_acc_def)
  note fold = merge_fold_refines[OF ra rl, of n, unfolded tree_merge_fold_eq]
  show ?thesis
  proof (cases "tree_merge n (t # ts)")
    case (Inl e)
    then have "merge_ordered_dicts n h ds = Inl e" using refinesD_Inl[OF merge_refines rl] by simp
    moreover have "merge_fold n h None ds = Inl e" using fold Inl by simp
    ultimately show ?thesis by simp
  next
    case (Inr tr)
    from refinesD_Inr[OF merge_refines rl Inr] obtain h1 A1 where
      m1: "merge_ordered_dicts n h ds = Inr (length h, h1)" and r1: "rep h1 A1 (Ref (length h)) tr"
      by blast
    from fold Inr obtain res h2 A2 where mf: "merge_fold n h None ds = Inr (res, h2)"
      and ra2: "rep_acc h2 A2 res (Some tr)" by auto
    from ra2 obtain v where res: "res = Some v" and r2: "rep h2 A2 v tr"
      by (auto simp: rep_acc_def split: option.splits)
    from Inr obtain kts where "tr = TDict Ordered kts"
      using refinesD_Inr[OF merge_refines rl Inr] by blast
    with r2 obtain r' where v: "v = Ref r'" by (auto elim: rep_TDictE)
    from rep_tree_of[OF r1] obtain m where "tree_of m h1 (Ref (length h)) = Some tr" ..
    moreover from rep_tree_of[OF r2] v obtain m' where "tree_of m' h2 (Ref r') = Some tr" by auto
    ultimately show ?thesis using m1 mf res v by auto
  qed
qed

text \<open>
  Three layers, \<^verbatim>\<open>{a: [1]}\<close>, \<^verbatim>\<open>{a: [2]}\<close> and \<^verbatim>\<open>{a: ["!reset!", 3], b: 7}\<close>.
\<close>

theorem merge_all_layers_eq_fold_witness:
  "\<exists>r' h2 m m' tr.
      merge_fold 1 [PyList [PInt 1], Dict Ordered [(''a'', Ref 0)],
                    PyList [PInt 2], Dict Ordered [(''a'', Ref 2)],
                    PyList [PStr ''!reset!'', PInt 3], Dict Ordered [(''a'', Ref 4), (''b'', PInt 7)]]
        None [Ref 1, Ref 3, Ref 5] = Inr (Some (Ref r'), h2) \<and>
      tree_of m [PyList [PInt 1], Dict Ordered [(''a'', Ref 0)],
                 PyList [PInt 2], Dict Ordered [(''a'', Ref 2)],
                 PyList [PStr ''!reset!'', PInt 3], Dict Ordered [(''a'', Ref 4), (''b'', PInt 7)],
                 Dict Ordered [(''a'', Ref 8), (''b'', PInt 7)], PyList [PInt 1, PInt 2], PyList [PInt 3]]
        (Ref 6) = Some tr \<and>
      tree_of m' h2 (Ref r') = Some tr"
proof -
  have st: "store_list [TDict Ordered [(''a'', TList [TInt 1])],
                        TDict Ordered [(''a'', TList [TInt 2])],
                        TDict Ordered [(''a'', TList [TStr ''!reset!'', TInt 3]), (''b'', TInt 7)]] []
      = ([Ref 1, Ref 3, Ref 5],
         [PyList [PInt 1], Dict Ordered [(''a'', Ref 0)],
          PyList [PInt 2], Dict Ordered [(''a'', Ref 2)],
          PyList [PStr ''!reset!'', PInt 3], Dict Ordered [(''a'', Ref 4), (''b'', PInt 7)]])"
    by simp
  have mg: "merge_ordered_dicts 1
         [PyList [PInt 1], Dict Ordered [(''a'', Ref 0)],
          PyList [PInt 2], Dict Ordered [(''a'', Ref 2)],
          PyList [PStr ''!reset!'', PInt 3], Dict Ordered [(''a'', Ref 4), (''b'', PInt 7)]]
         [Ref 1, Ref 3, Ref 5]
      = Inr (6, [PyList [PInt 1], Dict Ordered [(''a'', Ref 0)],
                 PyList [PInt 2], Dict Ordered [(''a'', Ref 2)],
                 PyList [PStr ''!reset!'', PInt 3], Dict Ordered [(''a'', Ref 4), (''b'', PInt 7)],
                 Dict Ordered [(''a'', Ref 8), (''b'', PInt 7)], PyList [PInt 1, PInt 2], PyList [PInt 3]])"
    by code_simp
  from merge_all_layers_eq_fold[OF st, of 1, unfolded mg] show ?thesis
    by (simp only: sum.case prod.case)
qed

text \<open>
  C10 (a key that the existing tree does not hold).  For layers that merge without an
  exception (\<open>layers_ok\<close>), the merge returns and the result holds at such a key the
  incoming value as it is; in particular an incoming nested tree that holds the reset key
  is stored with that key still present.  The reset key is stripped only on the branch
  for keys the existing tree already holds (C2).
\<close>

theorem merge_new_key_keeps_reset_key:
  assumes st: "store_list [TDict ke e, TDict ki i] h0 = (ds, h)"
    and ok: "layers_ok (Suc n) (TDict ke e) (TDict ki i)"
    and ek: "map_of e k = None" and ik: "map_of i k = Some v"
  shows "\<exists>r h' m T. merge_ordered_dicts (Suc n) h ds = Inr (r, h') \<and>
           tree_of m h' (Ref r) = Some (TDict Ordered T) \<and> map_of T k = Some v"
proof -
  note o = layers_ok_all[OF ok]
  from o(3) have oth: "\<forall>(k', v')\<in>set i. k' \<noteq> k \<longrightarrow> entry_ok (layers_ok n) (map_of e k') v'"
    by auto
  from merge_at_key[OF st o(1) o(2) ik oth] obtain T1 where
    T1: "map_of T1 k = None"
    and c: "case tree_add_entry (tree_merge n) T1 k v of
        Inl err \<Rightarrow> merge_ordered_dicts (Suc n) h ds = Inl err
      | Inr T2 \<Rightarrow> \<exists>h' m T. merge_ordered_dicts (Suc n) h ds = Inr (length h, h') \<and>
                    tree_of m h' (Ref (length h)) = Some (TDict Ordered T) \<and>
                    map_of T k = map_of T2 k"
    using ek by auto
  from T1 have "tree_add_entry (tree_merge n) T1 k v = Inr (AList.update k v T1)"
    by (rule tree_add_entry_new_key)
  with c obtain h' m T where "merge_ordered_dicts (Suc n) h ds = Inr (length h, h')"
    "tree_of m h' (Ref (length h)) = Some (TDict Ordered T)" "map_of T k = Some v"
    by (auto simp: update_conv')
  then show ?thesis by (intro exI[of _ "length h"] exI[of _ h'] exI[of _ m] exI[of _ T]) simp
qed

text \<open>
  \<^verbatim>\<open>{b: 1}\<close> then \<^verbatim>\<open>{a: {"!reset!": true, z: 9}}\<close>: the result holds
  \<^verbatim>\<open>{"!reset!": true, z: 9}\<close> at \<^verbatim>\<open>a\<close>.
\<close>

theorem merge_new_key_keeps_reset_key_witness:
  "merge_ordered_dicts (Suc 0)
         [Dict Ordered [(''b'', PInt 1)],
          Dict Ordered [(''!reset!'', PBool True), (''z'', PInt 9)], Dict Ordered [(''a'', Ref 1)]]
         [Ref 0, Ref 2]
      = Inr (3, [Dict Ordered [(''b'', PInt 1)],
         Dict Ordered [(''!reset!'', PBool True), (''z'', PInt 9)], Dict Ordered [(''a'', Ref 1)],
         Dict Ordered [(''b'', PInt 1), (''a'', Ref 1)]])
   \<and> (\<exists>m T. tree_of m
        [Dict Ordered [(''b'', PInt 1)],
         Dict Ordered [(''!reset!'', PBool True), (''z'', PInt 9)], Dict Ordered [(''a'', Ref 1)],
         Dict Ordered [(''b'', PInt 1), (''a'', Ref 1)]] (Ref 3)
        = Some (TDict Ordered T) \<and>
      map_of T ''a'' = Some (TDict Ordered [(''!reset!'', TBool True), (''z'', TInt 9)]))"
proof -
  have st: "store_list [TDict Ordered [(''b'', TInt 1)],
                        TDict Ordered [(''a'', TDict Ordered [(''!reset!'', TBool True), (''z'', TInt 9)])]] []
      = ([Ref 0, Ref 2],
         [Dict Ordered [(''b'', PInt 1)],
          Dict Ordered [(''!reset!'', PBool True), (''z'', PInt 9)], Dict Ordered [(''a'', Ref 1)]])"
    by simp
  have ok: "layers_ok (Suc 0) (TDict Ordered [(''b'', TInt 1)])
       (TDict Ordered [(''a'', TDict Ordered [(''!reset!'', TBool True), (''z'', TInt 9)])])"
    by code_simp
  have mg: "merge_ordered_dicts (Suc 0)
         [Dict Ordered [(''b'', PInt 1)],
          Dict Ordered [(''!reset!'', PBool True), (''z'', PInt 9)], Dict Ordered [(''a'', Ref 1)]]
         [Ref 0, Ref 2]
      = Inr (3, [Dict Ordered [(''b'', PInt 1)],
         Dict Ordered [(''!reset!'', PBool True), (''z'', PInt 9)], Dict Ordered [(''a'', Ref 1)],
         Dict Ordered [(''b'', PInt 1), (''a'', Ref 1)]])"
    by code_simp
  have e: "map_of [(''b'', TInt 1)] ''a'' = None" by simp
  have i: "map_of [(''a'', TDict Ordered [(''!reset!'', TBool True), (''z'', TInt 9)])] ''a''
      = Some (TDict Ordered [(''!reset!'', TBool True), (''z'', TInt 9)])" by simp
  from merge_new_key_keeps_reset_key[OF st ok e i, unfolded mg]
  have "\<exists>m T. tree_of m
        [Dict Ordered [(''b'', PInt 1)],
         Dict Ordered [(''!reset!'', PBool True), (''z'', PInt 9)], Dict Ordered [(''a'', Ref 1)],
         Dict Ordered [(''b'', PInt 1), (''a'', Ref 1)]] (Ref 3)
        = Some (TDict Ordered T) \<and>
      map_of T ''a'' = Some (TDict Ordered [(''!reset!'', TBool True), (''z'', TInt 9)])"
    by simp
  with mg show ?thesis by (intro conjI)
qed

section \<open>The documentation driver: a missing order entry\<close>

lemma write_sections_missing_entry:
  assumes "\<forall>k'\<in>set pre. \<exists>s. getitem h doc k' = Inr (PStr s)"
    and "getitem h doc k = Inl KeyError"
  shows "write_sections h doc out (map PStr pre @ PStr k # post) =
           (out @ concat (map (section_text h doc) pre), Some KeyError)"
  using assms
proof (induction pre arbitrary: out)
  case Nil
  then show ?case by simp
next
  case (Cons k' pre)
  then obtain s where s: "getitem h doc k' = Inr (PStr s)" by auto
  from Cons have "write_sections h doc (out @ py_strip s @ nl @ nl) (map PStr pre @ PStr k # post) =
     ((out @ py_strip s @ nl @ nl) @ concat (map (section_text h doc) pre), Some KeyError)"
    by simp
  moreover have "section_text h doc k' = py_strip s @ nl @ nl"
    using s by (simp add: section_text_def)
  ultimately show ?case using s by simp
qed

text \<open>
  C9 (an order entry with no rendered text aborts the run with a non-zero outcome and
  dumps the cumulative tree first).  The lookup \<^verbatim>\<open>overall['documentation'][e]\<close> is
  outside the \<^verbatim>\<open>try\<close> block, so its \<^verbatim>\<open>KeyError\<close> is not handled: nothing is printed.
  The run below has one layer whose order names \<^verbatim>\<open>intro\<close> and \<^verbatim>\<open>missing\<close>; it ends in
  the uncaught \<^verbatim>\<open>KeyError\<close> with the first section written and no dump.  (The merger of
  this file, called as the specification's binary merge, stands for
  \<^verbatim>\<open>update_xap_definitions\<close>.)
\<close>

theorem missing_order_entry_no_dump:
  "xap_generate_docs (\<lambda>h a. []) (\<lambda>h v. ''dump'') (merge_binary 3)
     [(''xap_0.0.1'', TDict Ordered [(''documentation'', TDict Ordered
        [(''order'', TList [TStr ''intro'', TStr ''missing'']), (''intro'', TStr '' Hello '')])])]
   = ([(''xap_0.0.1.md'', ''Hello'' @ nl @ nl)], [], Uncaught KeyError)"
  by code_simp

text \<open>
  C9, as the code has it: for every layer that merges and renders without an exception
  (whatever \<^verbatim>\<open>update_xap_definitions\<close> is) and whose order, after entries that have a
  rendered text, names a key \<open>k\<close> absent from the documentation mapping, the run ends
  there in an uncaught \<^verbatim>\<open>KeyError\<close>; the file of the layer holds the sections before \<open>k\<close>,
  and the printed lines are unchanged, so the cumulative tree is not dumped.
\<close>

theorem missing_order_entry_uncaught:
  assumes "store t h = (parsed, h0)"
    and "update_xap_definitions h0 overall parsed = Inr (r, h1)"
    and "render_sections container_str h1 (Ref r) = (None, h2)"
    and "getitem h2 (Ref r) ''documentation'' = Inr doc"
    and "getitem h2 doc ''order'' = Inr order"
    and "py_iter h2 order = Inr (map PStr pre @ PStr k # post)"
    and "\<forall>k'\<in>set pre. \<exists>s. getitem h2 doc k' = Inr (PStr s)"
    and "getitem h2 doc k = Inl KeyError"
  shows "layers_loop container_str dumps update_xap_definitions h overall docs_list files out
           ((stem, t) # rest) =
           (AList.update (stem @ ''.md'') (concat (map (section_text h2 doc) pre)) files,
            out, Inl (Uncaught KeyError))"
proof -
  have "assemble h2 (Ref r) = (concat (map (section_text h2 doc) pre), Some KeyError)"
    using assms(4,5,6) write_sections_missing_entry[OF assms(7,8), of "[]" post]
    by (simp add: assemble_def)
  then show ?thesis using assms(1,2,3) by simp
qed

theorem missing_order_entry_uncaught_witness:
  "layers_loop (\<lambda>h a. []) (\<lambda>h v. ''dump'') (merge_binary 3) [] None [] [] []
     [(''xap_0.0.1'', TDict Ordered [(''documentation'', TDict Ordered
        [(''order'', TList [TStr ''intro'', TStr ''missing'']), (''intro'', TStr '' Hello '')])])]
   = ([(''xap_0.0.1.md'', ''Hello'' @ nl @ nl)], [], Inl (Uncaught KeyError))"
proof -
  let ?h = "[PyList [PStr ''intro'', PStr ''missing''],
             Dict Ordered [(''order'', Ref 0), (''intro'', PStr '' Hello '')],
             Dict Ordered [(''documentation'', Ref 1)],
             Dict Ordered [(''documentation'', Ref 1)]]"
  have f1: "store (TDict Ordered [(''documentation'', TDict Ordered
        [(''order'', TList [TStr ''intro'', TStr ''missing'']), (''intro'', TStr '' Hello '')])]) []
      = (Ref 2, take 3 ?h)" by code_simp
  have f2: "merge_binary 3 (take 3 ?h) None (Ref 2) = Inr (3, ?h)" by code_simp
  have f3: "render_sections (\<lambda>h a. []) ?h (Ref 3) = (None, ?h)" by code_simp
  have f4: "getitem ?h (Ref 3) ''documentation'' = Inr (Ref 1)" by code_simp
  have f5: "getitem ?h (Ref 1) ''order'' = Inr (Ref 0)" by code_simp
  have f6: "py_iter ?h (Ref 0) = Inr (map PStr [''intro''] @ PStr ''missing'' # [])" by code_simp
  have f7: "\<forall>k'\<in>set [''intro'']. \<exists>s. getitem ?h (Ref 1) k' = Inr (PStr s)"
    by (simp add: getitem_def dict_items_def obj_at_def)
  have f8: "getitem ?h (Ref 1) ''missing'' = Inl KeyError" by code_simp
  have st: "concat (map (section_text ?h (Ref 1)) [''intro'']) = ''Hello'' @ nl @ nl" by code_simp
  show ?thesis
    using missing_order_entry_uncaught[where update_xap_definitions = "merge_binary 3"
        and dumps = "\<lambda>h v. ''dump''" and docs_list = "[]" and files = "[]" and out = "[]"
        and stem = "''xap_0.0.1''" and rest = "[]", OF f1 f2 f3 f4 f5 f6 f7 f8, unfolded st]
    by (simp only: AList.update.simps append.simps)
qed

end
